theory Spec2Isabelle
  imports Complex_Main
begin

section \<open>JavaScript numbers\<close>

text \<open>
  The module \<^verbatim>\<open>MakerJs.angle\<close> (file \<^verbatim>\<open>src/core/angle.ts\<close>) computes with JavaScript
  numbers, the values of the IEEE 754 binary64 format. Two models of them are used here.

  The first one, of this section, is exact arithmetic: every real is a value, and no
  operation rounds, overflows or underflows. It carries the statements about the
  functions that derive an angle from an arc, a line or a point and about mirroring;
  they are about the branch a function takes, the range of \<^verbatim>\<open>Math.atan2\<close> and the sign
  of a zero. One trait of the IEEE format is kept in it, because \<^verbatim>\<open>Math.atan2\<close> takes a
  different branch on it: zero has a sign. \<open>Fin 0\<close> is the positive zero (the literal
  \<^verbatim>\<open>0\<close>) and \<open>NegZero\<close> the negative one.

  The second one, of the section on binary64 arithmetic, rounds the result of every
  operation to the nearest double and has the infinities and NaN. It carries the
  statements about normalization, conversion and equality of angles: they are
  identities and ranges that rounding, underflow and overflow break. Its constants have
  the suffix \<open>64\<close>.
\<close>

datatype number = Fin real | NegZero

text \<open>The real value of a number, and its sign bit.\<close>

primrec val :: "number \<Rightarrow> real" where
  "val (Fin r) = r"
| "val NegZero = 0"

primrec negative :: "number \<Rightarrow> bool" where
  "negative (Fin r) = (r < 0)"
| "negative NegZero = True"

text \<open>
  The number with real value \<open>r\<close>; when \<open>r\<close> is zero, \<open>neg\<close> says which zero it is.
\<close>

definition signed :: "bool \<Rightarrow> real \<Rightarrow> number" where
  "signed neg r = (if r = 0 \<and> neg then NegZero else Fin r)"

text \<open>
  The arithmetic operators of ECMAScript on finite operands. Negation flips the sign, of a
  zero too. A sum that is zero is the negative zero only when both operands are negative
  zeros; \<^verbatim>\<open>x - y\<close> is \<^verbatim>\<open>x + (-y)\<close>. A product or quotient that is zero is negative when
  the signs of the operands differ. The module divides only by the literals \<^verbatim>\<open>360\<close> and
  \<^verbatim>\<open>180.0\<close> and by \<^verbatim>\<open>Math.PI\<close>; a quotient by zero is not a finite number and is outside
  this model. The comparisons \<^verbatim>\<open><\<close> and \<^verbatim>\<open><=\<close> compare the values, so the two zeros are
  equal to them.
\<close>

instantiation number :: "{uminus, plus, minus, times, inverse, ord}"
begin

definition uminus_number :: "number \<Rightarrow> number" where
  "uminus_number x = signed (\<not> negative x) (- val x)"

definition plus_number :: "number \<Rightarrow> number \<Rightarrow> number" where
  "plus_number x y = signed (negative x \<and> negative y) (val x + val y)"

definition minus_number :: "number \<Rightarrow> number \<Rightarrow> number" where
  "minus_number x y = x + (- y)"

definition times_number :: "number \<Rightarrow> number \<Rightarrow> number" where
  "times_number x y = signed (negative x \<noteq> negative y) (val x * val y)"

definition divide_number :: "number \<Rightarrow> number \<Rightarrow> number" where
  "divide_number x y = signed (negative x \<noteq> negative y) (val x / val y)"

definition inverse_number :: "number \<Rightarrow> number" where
  "inverse_number x = divide (Fin 1) x"

definition less_number :: "number \<Rightarrow> number \<Rightarrow> bool" where
  "less_number x y = (val x < val y)"

definition less_eq_number :: "number \<Rightarrow> number \<Rightarrow> bool" where
  "less_eq_number x y = (val x \<le> val y)"

instance ..

end

text \<open>The operator \<^verbatim>\<open>==\<close> on numbers: the two zeros are equal.\<close>

definition js_eq :: "number \<Rightarrow> number \<Rightarrow> bool" where
  "js_eq x y = (val x = val y)"

text \<open>
  \<^verbatim>\<open>Math.floor\<close>: the greatest integer not above the argument; a zero keeps its sign.
  \<^verbatim>\<open>Math.PI\<close> is the real \<open>\<pi>\<close>.
\<close>

definition Math_floor :: "number \<Rightarrow> number" where
  "Math_floor x = signed (negative x) (of_int \<lfloor>val x\<rfloor>)"

definition Math_PI :: number where
  "Math_PI = Fin pi"

section \<open>Normalization and conversion\<close>

text \<open>
  \<^verbatim>\<open>
  export function noRevolutions(angleInDegrees: number) {
      var revolutions = Math.floor(angleInDegrees / 360);
      return angleInDegrees - (360 * revolutions);
  }
  export function toDegrees(angleInRadians: number): number {
      return angleInRadians * 180.0 / Math.PI;
  }
  \<close>
  In exact arithmetic, for the angle of a line. The same two functions on doubles are
  \<open>noRevolutions64\<close> and \<open>toDegrees64\<close> below.
\<close>

definition noRevolutions :: "number \<Rightarrow> number" where
  "noRevolutions angleInDegrees =
     (let revolutions = Math_floor (angleInDegrees / Fin 360)
      in angleInDegrees - (Fin 360 * revolutions))"

definition toDegrees :: "number \<Rightarrow> number" where
  "toDegrees angleInRadians = angleInRadians * Fin 180 / Math_PI"

section \<open>Derivation\<close>

text \<open>
  An arc has a start and an end angle in degrees; its other fields (centre and radius) are
  not read by this module and live in the extension part of the record.
  \<^verbatim>\<open>
  export function ofArcEnd(arc: IPathArc): number {
      //compensate for values past zero. This allows easy compute of total angle size.
      //for example 0 = 360
      if (arc.endAngle < arc.startAngle) {
          return 360 + arc.endAngle;
      }
      return arc.endAngle;
  }
  \<close>
\<close>

record IPathArc =
  startAngle :: number
  endAngle :: number


text \<open>
  A point is a pair of coordinates (the array \<^verbatim>\<open>[x, y]\<close>), a line has an origin and an end
  (the field \<^verbatim>\<open>end\<close> is named \<open>end_point\<close> here).
\<close>

type_synonym IPoint = "number \<times> number"

record IPathLine =
  origin :: IPoint
  end_point :: IPoint

text \<open>
  Modelled from the spec: \<^verbatim>\<open>point.subtract\<close> is not in \<^verbatim>\<open>angle.ts\<close>. The specification
  gives it as the "component-wise subtraction \<^verbatim>\<open>a - b\<close>".
\<close>

definition subtract :: "IPoint \<Rightarrow> IPoint \<Rightarrow> IPoint" where
  "subtract a b = (fst a - fst b, snd a - snd b)"

text \<open>
  \<^verbatim>\<open>Math.atan2(y, x)\<close> on finite arguments, as ECMAScript lays it out. When \<open>y\<close> is a zero,
  the result is a zero of the same sign for \<open>x\<close> positive or the positive zero, and
  \<open>\<pi>\<close> with the sign of \<open>y\<close> for \<open>x\<close> negative or the negative zero. When \<open>x\<close> is a zero
  and \<open>y\<close> is not, the result is \<open>\<pi>/2\<close> with the sign of \<open>y\<close>. Otherwise it is the angle of
  the point \<open>(x, y)\<close>: \<open>arctan (y / x)\<close> in the right half plane, moved by \<open>\<pi>\<close> into the
  upper left or by \<open>- \<pi>\<close> into the lower left quadrant.
\<close>

definition Math_atan2 :: "number \<Rightarrow> number \<Rightarrow> number" where
  "Math_atan2 y x =
     (if val y = 0 then
        (if 0 < val x \<or> x = Fin 0 then signed (negative y) 0
         else if negative y then Fin (- pi) else Fin pi)
      else if val x = 0 then
        (if 0 < val y then Fin (pi / 2) else Fin (- (pi / 2)))
      else if 0 < val x then Fin (arctan (val y / val x))
      else if 0 < val y then Fin (arctan (val y / val x) + pi)
      else Fin (arctan (val y / val x) - pi))"

text \<open>
  \<^verbatim>\<open>
  export function ofPointInRadians(origin: IPoint, pointToFindAngle: IPoint): number {
      var d = point.subtract(pointToFindAngle, origin);
      var x = d[0];
      var y = d[1];
      return Math.atan2(-y, -x) + Math.PI;
  }
  export function ofPointInDegrees(origin: IPoint, pointToFindAngle: IPoint): number {
      return toDegrees(ofPointInRadians(origin, pointToFindAngle));
  }
  export function ofLineInDegrees(line: IPathLine) {
      return noRevolutions(toDegrees(ofPointInRadians(line.origin, line.end)));
  }
  \<close>
  The parameter \<^verbatim>\<open>origin\<close> is written \<open>origin'\<close>, the name \<open>origin\<close> being the field of a
  line.
\<close>

definition ofPointInRadians :: "IPoint \<Rightarrow> IPoint \<Rightarrow> number" where
  "ofPointInRadians origin' pointToFindAngle =
     (let d = subtract pointToFindAngle origin';
          x = fst d;
          y = snd d
      in Math_atan2 (- y) (- x) + Math_PI)"

definition ofPointInDegrees :: "IPoint \<Rightarrow> IPoint \<Rightarrow> number" where
  "ofPointInDegrees origin' pointToFindAngle =
     toDegrees (ofPointInRadians origin' pointToFindAngle)"

definition ofLineInDegrees :: "'a IPathLine_scheme \<Rightarrow> number" where
  "ofLineInDegrees line =
     noRevolutions (toDegrees (ofPointInRadians (origin line) (end_point line)))"

section \<open>Mirroring\<close>

text \<open>
  \<^verbatim>\<open>
  export function mirror(angleInDegrees: number, mirrorX: boolean, mirrorY: boolean): number {
      if (mirrorY) {
          angleInDegrees = 360 - angleInDegrees;
      }
      if (mirrorX) {
          angleInDegrees = (angleInDegrees < 180 ? 180 : 540) - angleInDegrees;
      }
      return angleInDegrees;
  }
  \<close>
  The two assignments to the parameter are the two bindings \<open>a1\<close> and \<open>a2\<close>.
\<close>

definition mirror :: "number \<Rightarrow> bool \<Rightarrow> bool \<Rightarrow> number" where
  "mirror angleInDegrees mirrorX mirrorY =
     (let a1 = (if mirrorY then Fin 360 - angleInDegrees else angleInDegrees);
          a2 = (if mirrorX then (if a1 < Fin 180 then Fin 180 else Fin 540) - a1 else a1)
      in a2)"

section \<open>Binary64 arithmetic\<close>

text \<open>
  A finite double is an integer of at most 53 bits times a power of two. \<open>rne\<close> rounds a
  real to the nearest integer, a tie going to the even one. \<open>expo x\<close> is the exponent of
  the binade of \<open>x\<close>, the integer \<open>e\<close> with \<open>2 ^ e \<le> \<bar>x\<bar> < 2 ^ (e + 1)\<close>; below
  \<open>2 ^ (- 1022)\<close>, where the subnormal numbers lie, it stays \<open>- 1022\<close>. \<open>ulp x\<close> is the
  distance of two neighbouring
  doubles in the binade of \<open>x\<close>, and \<open>round_nearest x\<close> is the multiple of \<open>ulp x\<close> nearest
  to \<open>x\<close>, a tie going to the even multiple: the rounding of IEEE 754 in its default
  mode, on an exponent range without an upper end.
\<close>

definition rne :: "real \<Rightarrow> int" where
  "rne q = (let f = \<lfloor>q\<rfloor>; d = q - of_int f
            in if d < 1 / 2 then f else if 1 / 2 < d then f + 1
               else if even f then f else f + 1)"

definition expo :: "real \<Rightarrow> int" where
  "expo x = (if \<bar>x\<bar> < 2 powi (- 1022) then - 1022 else \<lfloor>log 2 \<bar>x\<bar>\<rfloor>)"

definition ulp :: "real \<Rightarrow> real" where
  "ulp x = 2 powi (expo x - 52)"

definition round_nearest :: "real \<Rightarrow> real" where
  "round_nearest x = of_int (rne (x / ulp x)) * ulp x"

text \<open>
  The values of the format: the finite numbers, of which zero is the positive zero; the
  negative zero; the two infinities, \<open>Infinite True\<close> the negative one; and NaN.
  \<open>val64\<close> is the real value of a finite double (and 0 on the others), \<open>negative64\<close> the
  sign bit.
\<close>

datatype double = Finite real | MinusZero | Infinite bool | NaN

primrec val64 :: "double \<Rightarrow> real" where
  "val64 (Finite r) = r"
| "val64 MinusZero = 0"
| "val64 (Infinite s) = 0"
| "val64 NaN = 0"

primrec negative64 :: "double \<Rightarrow> bool" where
  "negative64 (Finite r) = (r < 0)"
| "negative64 MinusZero = True"
| "negative64 (Infinite s) = s"
| "negative64 NaN = False"

primrec is_finite :: "double \<Rightarrow> bool" where
  "is_finite (Finite r) = True"
| "is_finite MinusZero = True"
| "is_finite (Infinite s) = False"
| "is_finite NaN = False"

definition is_zero :: "double \<Rightarrow> bool" where
  "is_zero x = (x = Finite 0 \<or> x = MinusZero)"

definition is_infinite :: "double \<Rightarrow> bool" where
  "is_infinite x = (x = Infinite False \<or> x = Infinite True)"

definition zero64 :: "bool \<Rightarrow> double" where
  "zero64 neg = (if neg then MinusZero else Finite 0)"

text \<open>
  A rounded value of magnitude \<open>2 ^ 1024\<close> or more is above the largest double: the
  operation overflows. A real is a double when rounding leaves it as it is and it is below that
  threshold.
\<close>

definition overflow_threshold :: real where
  "overflow_threshold = 2 powi 1024"

definition is_double :: "real \<Rightarrow> bool" where
  "is_double x = (round_nearest x = x \<and> \<bar>x\<bar> < overflow_threshold)"

text \<open>
  \<open>round64 neg r\<close> is the double that an operation returns whose exact result is \<open>r\<close>;
  \<open>neg\<close> is the sign of the result when \<open>r\<close> is zero. An overflow gives the infinity of
  the sign of \<open>r\<close>, an underflow to zero the zero of the sign of \<open>r\<close>.
\<close>

definition round64 :: "bool \<Rightarrow> real \<Rightarrow> double" where
  "round64 neg r =
     (if r = 0 then zero64 neg
      else if overflow_threshold \<le> \<bar>round_nearest r\<bar> then Infinite (r < 0)
      else if round_nearest r = 0 then zero64 (r < 0)
      else Finite (round_nearest r))"

text \<open>
  The arithmetic operators of ECMAScript. NaN is contagious. The sum of two infinities
  of different signs is NaN; a zero sum of finite operands is the negative zero only
  when both operands are negative zeros; \<^verbatim>\<open>x - y\<close> is \<^verbatim>\<open>x + (-y)\<close>. The sign of a product or
  quotient is the exclusive or of the signs of the operands; an infinity times a zero, a
  zero by a zero and an infinity by an infinity are NaN; a quotient by a zero is an
  infinity and a finite number by an infinity is a zero.
\<close>

instantiation double :: "{uminus, plus, minus, times, inverse}"
begin

definition uminus_double :: "double \<Rightarrow> double" where
  "uminus_double x =
     (case x of Finite r \<Rightarrow> (if r = 0 then MinusZero else Finite (- r))
      | MinusZero \<Rightarrow> Finite 0
      | Infinite s \<Rightarrow> Infinite (\<not> s)
      | NaN \<Rightarrow> NaN)"

definition plus_double :: "double \<Rightarrow> double \<Rightarrow> double" where
  "plus_double x y =
     (if x = NaN \<or> y = NaN then NaN
      else if is_infinite x then (if is_infinite y \<and> x \<noteq> y then NaN else x)
      else if is_infinite y then y
      else round64 (negative64 x \<and> negative64 y) (val64 x + val64 y))"

definition minus_double :: "double \<Rightarrow> double \<Rightarrow> double" where
  "minus_double x y = x + (- y)"

definition times_double :: "double \<Rightarrow> double \<Rightarrow> double" where
  "times_double x y =
     (if x = NaN \<or> y = NaN then NaN
      else if is_infinite x \<or> is_infinite y then
        (if is_zero x \<or> is_zero y then NaN else Infinite (negative64 x \<noteq> negative64 y))
      else round64 (negative64 x \<noteq> negative64 y) (val64 x * val64 y))"

definition divide_double :: "double \<Rightarrow> double \<Rightarrow> double" where
  "divide_double x y =
     (if x = NaN \<or> y = NaN then NaN
      else if is_infinite x then
        (if is_infinite y then NaN else Infinite (negative64 x \<noteq> negative64 y))
      else if is_infinite y then zero64 (negative64 x \<noteq> negative64 y)
      else if is_zero y then
        (if is_zero x then NaN else Infinite (negative64 x \<noteq> negative64 y))
      else round64 (negative64 x \<noteq> negative64 y) (val64 x / val64 y))"

definition inverse_double :: "double \<Rightarrow> double" where
  "inverse_double x = divide (Finite 1) x"

instance ..

end

text \<open>
  The operator \<^verbatim>\<open>==\<close>: false on NaN, the two zeros are equal. \<^verbatim>\<open>Math.floor\<close> keeps the
  zeros, the infinities and NaN. \<^verbatim>\<open>Math.round\<close> is the nearest integer, a tie going up;
  a result that is zero has the sign of the argument. \<^verbatim>\<open>Math.PI\<close> is the double nearest
  to \<open>\<pi>\<close>, with the bits \<^verbatim>\<open>0x400921FB54442D18\<close>: it is \<open>7074237752028440 / 2 ^ 51\<close>.
\<close>

definition js_eq64 :: "double \<Rightarrow> double \<Rightarrow> bool" where
  "js_eq64 x y =
     (x \<noteq> NaN \<and> y \<noteq> NaN \<and>
      (if is_infinite x \<or> is_infinite y then x = y else val64 x = val64 y))"

definition Math_floor64 :: "double \<Rightarrow> double" where
  "Math_floor64 x =
     (case x of Finite r \<Rightarrow> Finite (of_int \<lfloor>r\<rfloor>)
      | MinusZero \<Rightarrow> MinusZero
      | Infinite s \<Rightarrow> Infinite s
      | NaN \<Rightarrow> NaN)"


definition Math_PI64 :: double where
  "Math_PI64 = Finite (884279719003555 / 2 ^ 48)"

text \<open>
  \<^verbatim>\<open>
  export function noRevolutions(angleInDegrees: number) {
      var revolutions = Math.floor(angleInDegrees / 360);
      return angleInDegrees - (360 * revolutions);
  }
  export function toRadians(angleInDegrees: number): number {
      return noRevolutions(angleInDegrees) * Math.PI / 180.0;
  }
  export function toDegrees(angleInRadians: number): number {
      return angleInRadians * 180.0 / Math.PI;
  }
  \<close>
\<close>

definition noRevolutions64 :: "double \<Rightarrow> double" where
  "noRevolutions64 angleInDegrees =
     (let revolutions = Math_floor64 (angleInDegrees / Finite 360)
      in angleInDegrees - (Finite 360 * revolutions))"

definition toRadians64 :: "double \<Rightarrow> double" where
  "toRadians64 angleInDegrees = noRevolutions64 angleInDegrees * Math_PI64 / Finite 180"

definition toDegrees64 :: "double \<Rightarrow> double" where
  "toDegrees64 angleInRadians = angleInRadians * Finite 180 / Math_PI64"



section \<open>Facts about the arithmetic\<close>

lemma val_signed: "val (signed s r) = r"
  by (simp add: signed_def)

lemma val_uminus: "val (- x) = - val x"
  by (simp add: uminus_number_def val_signed)

lemma val_plus: "val (x + y) = val x + val y"
  by (simp add: plus_number_def val_signed)

lemma val_minus: "val (x - y) = val x - val y"
  by (simp add: minus_number_def val_plus val_uminus)

lemma val_times: "val (x * y) = val x * val y"
  by (simp add: times_number_def val_signed)

lemma val_divide: "val (x / y) = val x / val y"
  by (simp add: divide_number_def val_signed)

lemma val_floor: "val (Math_floor x) = of_int \<lfloor>val x\<rfloor>"
  by (simp add: Math_floor_def val_signed)

lemmas val_arith = val_uminus val_plus val_minus val_times val_divide val_floor

text \<open>
  The remainder \<open>r - 360 * \<lfloor>r / 360\<rfloor>\<close> over the reals lies between 0 and 360.
\<close>

lemma floor_mod_range:
  fixes r :: real
  shows "0 \<le> r - 360 * of_int \<lfloor>r / 360\<rfloor> \<and> r - 360 * of_int \<lfloor>r / 360\<rfloor> < 360"
proof -
  have "of_int \<lfloor>r / 360\<rfloor> \<le> r / 360" and "r / 360 < of_int \<lfloor>r / 360\<rfloor> + 1"
    by linarith+
  then show ?thesis by (simp add: field_simps)
qed

section \<open>Normalization\<close>

text \<open>
  The result of \<open>noRevolutions\<close> is never the negative zero: the subtraction of a negative
  zero from a negative zero is the positive zero.
\<close>

lemma noRevolutions_Fin:
  "noRevolutions a = Fin (val a - 360 * of_int \<lfloor>val a / 360\<rfloor>)"
proof (cases a)
  case (Fin r)
  then show ?thesis
    by (auto simp add: noRevolutions_def Let_def minus_number_def plus_number_def
        uminus_number_def times_number_def divide_number_def Math_floor_def signed_def)
next
  case NegZero
  then show ?thesis
    by (simp add: noRevolutions_def Let_def minus_number_def plus_number_def
        uminus_number_def times_number_def divide_number_def Math_floor_def signed_def)
qed

section \<open>Conversion\<close>

lemma toDegrees_signed: "toDegrees r = signed (negative r) (val r * 180 / pi)"
  by (cases r)
    (simp_all add: toDegrees_def Math_PI_def times_number_def divide_number_def signed_def)

lemma toDegrees_Fin: "r \<noteq> 0 \<Longrightarrow> toDegrees (Fin r) = Fin (r * 180 / pi)"
  by (simp add: toDegrees_signed signed_def)

section \<open>Derivation\<close>


text \<open>
  \<open>Math_atan2 y x\<close> is an angle of the point \<open>(x, y)\<close>: off the origin, the point is its
  distance from the origin times the cosine and the sine of that angle.
\<close>

lemma arctan_polar:
  fixes x y :: real
  assumes "0 < x"
  shows "sqrt (x\<^sup>2 + y\<^sup>2) * cos (arctan (y / x)) = x"
    and "sqrt (x\<^sup>2 + y\<^sup>2) * sin (arctan (y / x)) = y"
proof -
  have s: "sqrt (x\<^sup>2 + y\<^sup>2) = x * sqrt (1 + (y / x)\<^sup>2)"
  proof -
    have "x\<^sup>2 + y\<^sup>2 = x\<^sup>2 * (1 + (y / x)\<^sup>2)"
      using assms by (simp add: field_simps power2_eq_square)
    then show ?thesis using assms by (simp add: real_sqrt_mult)
  qed
  have p: "0 < sqrt (1 + (y / x)\<^sup>2)"
    by (simp add: add_pos_nonneg)
  show "sqrt (x\<^sup>2 + y\<^sup>2) * cos (arctan (y / x)) = x"
    using p by (simp add: s cos_arctan)
  show "sqrt (x\<^sup>2 + y\<^sup>2) * sin (arctan (y / x)) = y"
    using p assms by (simp add: s sin_arctan)
qed

lemma arctan_polar_left:
  fixes x y :: real
  assumes "x < 0"
  shows "sqrt (x\<^sup>2 + y\<^sup>2) * cos (arctan (y / x)) = - x"
    and "sqrt (x\<^sup>2 + y\<^sup>2) * sin (arctan (y / x)) = - y"
  using arctan_polar [of "- x" "- y"] assms by simp_all

lemma Math_atan2_polar:
  assumes "val x \<noteq> 0 \<or> val y \<noteq> 0"
  shows "sqrt ((val x)\<^sup>2 + (val y)\<^sup>2) * cos (val (Math_atan2 y x)) = val x
       \<and> sqrt ((val x)\<^sup>2 + (val y)\<^sup>2) * sin (val (Math_atan2 y x)) = val y"
proof -
  consider "val y = 0" "0 < val x" | "val y = 0" "val x < 0"
    | "val x = 0" "0 < val y" | "val x = 0" "val y < 0"
    | "val y \<noteq> 0" "0 < val x" | "val y \<noteq> 0" "val x < 0"
    using assms
    by (cases "val x" "0::real" rule: linorder_cases;
        cases "val y" "0::real" rule: linorder_cases) auto
  then show ?thesis
  proof cases
    case 1
    then show ?thesis by (auto simp add: Math_atan2_def val_signed)
  next
    case 2
    then show ?thesis by (auto simp add: Math_atan2_def val_signed)
  next
    case 3
    then show ?thesis by (auto simp add: Math_atan2_def)
  next
    case 4
    then show ?thesis by (auto simp add: Math_atan2_def)
  next
    case 5
    then show ?thesis
      using arctan_polar [of "val x" "val y"] by (simp add: Math_atan2_def)
  next
    case 6
    then show ?thesis
      using arctan_polar_left [of "val x" "val y"]
      by (auto simp add: Math_atan2_def cos_diff sin_diff cos_add sin_add)
  qed
qed

text \<open>
  The range of \<^verbatim>\<open>Math.atan2\<close> is the closed interval from \<open>- \<pi>\<close> to \<open>\<pi>\<close>; both ends are
  values, on the negative \<open>x\<close> axis with the two zeros for \<open>y\<close>.
\<close>

lemma Math_atan2_range: "- pi \<le> val (Math_atan2 y x) \<and> val (Math_atan2 y x) \<le> pi"
proof -
  let ?t = "arctan (val y / val x)"
  have b: "- (pi / 2) < ?t" "?t < pi / 2"
    by (rule arctan_lbound, rule arctan_ubound)
  have neg: "?t < 0" if "val x < 0" "0 < val y"
    using that by (simp add: arctan_less_zero_iff divide_less_0_iff)
  have pos: "0 < ?t" if "val x < 0" "val y < 0"
    using that by (simp add: zero_less_arctan_iff zero_less_divide_iff)
  show ?thesis
    using b neg pos pi_gt_zero
    by (auto simp add: Math_atan2_def val_signed not_less less_le)
qed

lemma val_ofPointInRadians:
  "val (ofPointInRadians origin' p) =
     val (Math_atan2 (- (snd p - snd origin')) (- (fst p - fst origin'))) + pi"
  by (simp add: ofPointInRadians_def subtract_def Let_def Math_PI_def val_arith)

lemma ofPointInRadians_axes:
  "ofPointInRadians (Fin 0, Fin 0) (Fin 1, Fin 0) = Fin 0"
  "ofPointInRadians (Fin 0, Fin 0) (Fin 0, Fin 1) = Fin (pi / 2)"
  "ofPointInRadians (Fin 0, Fin 0) (Fin (- 1), Fin 0) = Fin pi"
  "ofPointInRadians (Fin 0, Fin 0) (Fin 0, Fin (- 1)) = Fin (3 * pi / 2)"
  "ofPointInRadians (Fin 0, Fin 0) (Fin 1, NegZero) = Fin (2 * pi)"
  by (simp_all add: ofPointInRadians_def subtract_def Math_atan2_def Math_PI_def Let_def
      minus_number_def plus_number_def uminus_number_def signed_def)

text \<open>
  Claim C2, as stated: the result of \<open>ofPointInRadians\<close> always lies in the half-open
  interval from 0 to \<open>2 * \<pi>\<close>. It does not for the target \<open>(1, -0)\<close> seen from the origin
  \<open>(0, 0)\<close>: the difference has the negative zero as \<open>y\<close>, its negation is the positive
  zero, \<^verbatim>\<open>Math.atan2(0, -1)\<close> is \<open>\<pi>\<close>, and the result is \<open>2 * \<pi>\<close>.
\<close>

theorem ofPointInRadians_full_turn:
  "\<not> (0 \<le> val (ofPointInRadians (Fin 0, Fin 0) (Fin 1, NegZero))
      \<and> val (ofPointInRadians (Fin 0, Fin 0) (Fin 1, NegZero)) < 2 * pi)"
  by (simp add: ofPointInRadians_def subtract_def Math_atan2_def Math_PI_def Let_def
      minus_number_def plus_number_def uminus_number_def signed_def)

text \<open>
  Claim C2, amended. For every pair of points, \<open>ofPointInRadians origin target\<close> is
  \<^verbatim>\<open>Math.atan2(-dy, -dx) + Math.PI\<close> for the component-wise difference \<open>(dx, dy)\<close> of
  target and origin, and the result lies in the closed interval from 0 to \<open>2 * \<pi>\<close>.
\<close>

theorem ofPointInRadians_closed_range:
  "ofPointInRadians origin' p =
     Math_atan2 (- (snd p - snd origin')) (- (fst p - fst origin')) + Math_PI
   \<and> 0 \<le> val (ofPointInRadians origin' p)
   \<and> val (ofPointInRadians origin' p) \<le> 2 * pi"
proof -
  have "ofPointInRadians origin' p =
          Math_atan2 (- (snd p - snd origin')) (- (fst p - fst origin')) + Math_PI"
    by (simp add: ofPointInRadians_def subtract_def Let_def)
  moreover have "0 \<le> val (ofPointInRadians origin' p)"
    and "val (ofPointInRadians origin' p) \<le> 2 * pi"
    using Math_atan2_range [of "- (snd p - snd origin')" "- (fst p - fst origin')"]
    by (simp_all add: val_ofPointInRadians)
  ultimately show ?thesis by simp
qed

text \<open>
  In exact arithmetic the upper end is reached on the sign of a zero alone: the result is
  \<open>2 * \<pi>\<close> exactly when the difference in \<open>y\<close> is the negative zero and the difference
  in \<open>x\<close> is positive or the positive zero.
\<close>

lemma uminus_eq_Fin_0: "- d = Fin 0 \<longleftrightarrow> d = NegZero"
  by (cases d) (auto simp add: uminus_number_def signed_def)

lemma uminus_eq_NegZero: "- d = NegZero \<longleftrightarrow> d = Fin 0"
  by (cases d) (auto simp add: uminus_number_def signed_def)

lemma Math_atan2_eq_pi:
  "val (Math_atan2 y x) = pi \<longleftrightarrow> y = Fin 0 \<and> (val x < 0 \<or> x = NegZero)"
proof (cases "val y = 0")
  case True
  then have y: "y = Fin 0 \<or> y = NegZero"
    by (cases y) simp_all
  have x: "(0 < val x \<or> x = Fin 0) \<longleftrightarrow> \<not> (val x < 0 \<or> x = NegZero)"
    by (cases x) auto
  have "- pi \<noteq> pi"
    using pi_gt_zero by linarith
  with True y x show ?thesis
    by (auto simp add: Math_atan2_def val_signed)
next
  case False
  let ?t = "arctan (val y / val x)"
  have b: "- (pi / 2) < ?t" "?t < pi / 2"
    by (rule arctan_lbound, rule arctan_ubound)
  have z: "?t \<noteq> 0" if "val x \<noteq> 0"
    using that False by (simp add: arctan_eq_zero_iff)
  have "val (Math_atan2 y x) \<noteq> pi"
  proof (cases "val x = 0")
    case True
    have "pi / 2 \<noteq> pi" "- (pi / 2) \<noteq> pi"
      using pi_gt_zero by linarith+
    with True False show ?thesis by (simp add: Math_atan2_def)
  next
    case nz: False
    have "?t \<noteq> pi" "?t + pi \<noteq> pi" "?t - pi \<noteq> pi"
      using b z [OF nz] pi_gt_zero by linarith+
    with nz False show ?thesis by (simp add: Math_atan2_def)
  qed
  moreover have "y \<noteq> Fin 0"
    using False by auto
  ultimately show ?thesis by simp
qed

lemma ofPointInRadians_eq_two_pi_iff:
  "val (ofPointInRadians origin' p) = 2 * pi \<longleftrightarrow>
     snd p - snd origin' = NegZero
     \<and> (0 < val (fst p - fst origin') \<or> fst p - fst origin' = Fin 0)"
  by (simp add: val_ofPointInRadians Math_atan2_eq_pi uminus_eq_Fin_0 uminus_eq_NegZero
      val_uminus)

text \<open>
  Claim C8. \<open>ofLineInDegrees line\<close> is
  \<open>noRevolutions (toDegrees (ofPointInRadians (origin line) (end line)))\<close>, so its result is
  normalized: it lies in the half-open interval from 0 to 360. From the origin \<open>(0, 0)\<close>
  it is 0 for the end \<open>(1, 0)\<close>, 90 for \<open>(0, 1)\<close>, 180 for \<open>(-1, 0)\<close> and 270 for \<open>(0, -1)\<close>.
  \<open>ofPointInDegrees\<close> does not normalize: for the end \<open>(1, -0)\<close> it returns 360 where
  \<open>ofLineInDegrees\<close> returns 0.
\<close>

theorem ofLineInDegrees_normalized:
  "ofLineInDegrees line =
     noRevolutions (toDegrees (ofPointInRadians (origin line) (end_point line)))
   \<and> 0 \<le> val (ofLineInDegrees line) \<and> val (ofLineInDegrees line) < 360
   \<and> ofLineInDegrees \<lparr>origin = (Fin 0, Fin 0), end_point = (Fin 1, Fin 0)\<rparr> = Fin 0
   \<and> ofLineInDegrees \<lparr>origin = (Fin 0, Fin 0), end_point = (Fin 0, Fin 1)\<rparr> = Fin 90
   \<and> ofLineInDegrees \<lparr>origin = (Fin 0, Fin 0), end_point = (Fin (- 1), Fin 0)\<rparr> = Fin 180
   \<and> ofLineInDegrees \<lparr>origin = (Fin 0, Fin 0), end_point = (Fin 0, Fin (- 1))\<rparr> = Fin 270
   \<and> ofLineInDegrees \<lparr>origin = (Fin 0, Fin 0), end_point = (Fin 1, NegZero)\<rparr> = Fin 0
   \<and> ofPointInDegrees (Fin 0, Fin 0) (Fin 1, NegZero) = Fin 360"
proof -
  have range: "0 \<le> val (ofLineInDegrees line) \<and> val (ofLineInDegrees line) < 360"
    unfolding ofLineInDegrees_def noRevolutions_Fin val.simps by (rule floor_mod_range)
  have d0: "toDegrees (Fin 0) = Fin 0"
    by (simp add: toDegrees_signed signed_def)
  have e1: "ofLineInDegrees \<lparr>origin = (Fin 0, Fin 0), end_point = (Fin 1, Fin 0)\<rparr> = Fin 0"
    by (simp add: ofLineInDegrees_def ofPointInRadians_axes d0 noRevolutions_Fin)
  have e2: "ofLineInDegrees \<lparr>origin = (Fin 0, Fin 0), end_point = (Fin 0, Fin 1)\<rparr> = Fin 90"
    by (simp add: ofLineInDegrees_def ofPointInRadians_axes toDegrees_Fin noRevolutions_Fin)
  have e3: "ofLineInDegrees \<lparr>origin = (Fin 0, Fin 0), end_point = (Fin (- 1), Fin 0)\<rparr> = Fin 180"
    by (simp add: ofLineInDegrees_def ofPointInRadians_axes toDegrees_Fin noRevolutions_Fin)
  have e4: "ofLineInDegrees \<lparr>origin = (Fin 0, Fin 0), end_point = (Fin 0, Fin (- 1))\<rparr> = Fin 270"
    by (simp add: ofLineInDegrees_def ofPointInRadians_axes toDegrees_Fin noRevolutions_Fin)
  have e5: "ofLineInDegrees \<lparr>origin = (Fin 0, Fin 0), end_point = (Fin 1, NegZero)\<rparr> = Fin 0"
    by (simp add: ofLineInDegrees_def ofPointInRadians_axes toDegrees_Fin noRevolutions_Fin)
  have e6: "ofPointInDegrees (Fin 0, Fin 0) (Fin 1, NegZero) = Fin 360"
    by (simp add: ofPointInDegrees_def ofPointInRadians_axes toDegrees_Fin)
  show ?thesis
    using range e1 e2 e3 e4 e5 e6 by (simp add: ofLineInDegrees_def)
qed

section \<open>Mirroring\<close>

text \<open>
  Claim C4. \<open>mirror a mirrorX mirrorY\<close> applies the mirror in \<open>y\<close> (\<open>a\<close> becomes
  \<open>360 - a\<close>) before the mirror in \<open>x\<close> (\<open>a\<close> becomes \<open>180 - a\<close> when \<open>a < 180\<close> and
  \<open>540 - a\<close> otherwise); the angle 180 takes the branch \<open>540 - a\<close>. So
  \<open>mirror 30 false true = 330\<close>, \<open>mirror 30 true false = 150\<close> and
  \<open>mirror 200 true false = 340\<close>. The order matters: both mirrors take 180 to 360, the
  mirror in \<open>x\<close> followed by the mirror in \<open>y\<close> takes it to 0.
\<close>

theorem mirror_y_before_x:
  "mirror a False False = a
   \<and> mirror a False True = Fin 360 - a
   \<and> mirror a True False = (if val a < 180 then Fin 180 - a else Fin 540 - a)
   \<and> mirror a True True = mirror (mirror a False True) True False
   \<and> mirror (Fin 180) True False = Fin 360
   \<and> mirror (Fin 30) False True = Fin 330
   \<and> mirror (Fin 30) True False = Fin 150
   \<and> mirror (Fin 200) True False = Fin 340
   \<and> mirror (Fin 180) True True = Fin 360
   \<and> mirror (mirror (Fin 180) True False) False True = Fin 0"
  by (simp add: mirror_def Let_def less_number_def minus_number_def plus_number_def
      uminus_number_def signed_def)

section \<open>Rounding to the nearest double\<close>

text \<open>
  Powers of two with an integer exponent, and the exponent of a real. With the binade of
  \<open>x\<close> known, \<open>round_nearest x\<close> is computed by \<open>round_nearest_eval\<close>.
\<close>

lemma powr_powi: "(2::real) powr (of_int e) = 2 powi e"
  by (rule powr_real_of_int') simp_all

lemma floor_log2_eqI:
  assumes "2 powi e \<le> x" "x < 2 powi (e + 1)"
  shows "\<lfloor>log 2 x\<rfloor> = e"
proof -
  have pos: "0 < x"
    using assms(1) zero_less_power_int [of "2::real" e] by linarith
  have "2 powr (of_int e) \<le> x"
    using assms(1) by (simp only: powr_powi)
  moreover have "x < 2 powr (of_int (e + 1))"
    using assms(2) by (simp only: powr_powi)
  then have "x < 2 powr (of_int e + 1)"
    by (simp only: of_int_add of_int_1)
  ultimately show ?thesis
    using pos floor_log_eq_powr_iff [of x 2 e] by simp
qed

lemma p2_less_iff: "(2::real) powi a < 2 powi b \<longleftrightarrow> a < b"
proof
  assume l: "(2::real) powi a < 2 powi b"
  show "a < b"
  proof (rule ccontr)
    assume "\<not> a < b"
    then have "b \<le> a" by simp
    then have "(2::real) powi b \<le> 2 powi a" by (rule power_int_increasing) simp
    with l show False by simp
  qed
next
  assume "a < b"
  then show "(2::real) powi a < 2 powi b" by (rule power_int_strict_increasing) simp
qed

lemma p2_le_iff: "(2::real) powi a \<le> 2 powi b \<longleftrightarrow> a \<le> b"
  using p2_less_iff [of b a] by (auto simp add: not_less [symmetric])

lemma expo_subnormal: "\<bar>x\<bar> < 2 powi (- 1022) \<Longrightarrow> expo x = - 1022"
  by (simp only: expo_def if_True)

lemma expo_eqI:
  assumes "2 powi e \<le> \<bar>x\<bar>" "\<bar>x\<bar> < 2 powi (e + 1)" "- 1022 \<le> e"
  shows "expo x = e"
proof -
  have "(2::real) powi (- 1022) \<le> 2 powi e"
    using assms(3) by (simp only: p2_le_iff)
  with assms(1) have "\<not> \<bar>x\<bar> < 2 powi (- 1022)" by linarith
  then have "expo x = \<lfloor>log 2 \<bar>x\<bar>\<rfloor>" by (simp only: expo_def if_False)
  with floor_log2_eqI [OF assms(1,2)] show ?thesis by simp
qed

lemma round_nearest_eval:
  assumes "2 powi e \<le> \<bar>x\<bar>" "\<bar>x\<bar> < 2 powi (e + 1)" "- 1022 \<le> e"
  shows "round_nearest x = of_int (rne (x / 2 powi (e - 52))) * 2 powi (e - 52)"
  by (simp add: round_nearest_def ulp_def expo_eqI [OF assms])

text \<open>
  Rounding to the nearest integer fixes the integers, moves a real by at most a half, is
  monotone and odd.
\<close>

lemma rne_of_int: "rne (of_int k) = k"
  by (simp add: rne_def Let_def)

lemma rne_error: "\<bar>of_int (rne q) - q\<bar> \<le> 1 / 2"
proof -
  have "of_int \<lfloor>q\<rfloor> \<le> q" "q < of_int \<lfloor>q\<rfloor> + 1" by linarith+
  then show ?thesis by (auto simp add: rne_def Let_def)
qed

lemma rne_ge_int: "of_int k \<le> q \<Longrightarrow> k \<le> rne q"
proof -
  assume "of_int k \<le> q"
  then have "k \<le> \<lfloor>q\<rfloor>" by (simp add: le_floor_iff)
  then show ?thesis by (auto simp add: rne_def Let_def)
qed

lemma rne_le_int: "q \<le> of_int k \<Longrightarrow> rne q \<le> k"
proof -
  assume a: "q \<le> of_int k"
  show ?thesis
  proof (cases "q = of_int k")
    case True
    then show ?thesis by (simp add: rne_of_int)
  next
    case False
    with a have "q < of_int k" by simp
    then have "\<lfloor>q\<rfloor> < k" by (simp add: floor_less_iff)
    then have "\<lfloor>q\<rfloor> + 1 \<le> k" by simp
    then show ?thesis by (auto simp add: rne_def Let_def)
  qed
qed

lemma rne_bounds: "\<lfloor>q\<rfloor> \<le> rne q \<and> rne q \<le> \<lfloor>q\<rfloor> + 1"
  by (auto simp add: rne_def Let_def)

lemma rne_mono: "q \<le> q' \<Longrightarrow> rne q \<le> rne q'"
proof -
  assume a: "q \<le> q'"
  then have f: "\<lfloor>q\<rfloor> \<le> \<lfloor>q'\<rfloor>" by (rule floor_mono)
  show ?thesis
  proof (cases "\<lfloor>q\<rfloor> = \<lfloor>q'\<rfloor>")
    case True
    then show ?thesis using a by (auto simp add: rne_def Let_def)
  next
    case False
    with f have "\<lfloor>q\<rfloor> + 1 \<le> \<lfloor>q'\<rfloor>" by simp
    then show ?thesis using rne_bounds [of q] rne_bounds [of q'] by linarith
  qed
qed

lemma rne_minus: "rne (- q) = - rne q"
proof (cases "q = of_int \<lfloor>q\<rfloor>")
  case True
  then have "rne (- of_int \<lfloor>q\<rfloor>) = - rne (of_int \<lfloor>q\<rfloor>)"
    using rne_of_int [of "- \<lfloor>q\<rfloor>"] rne_of_int [of "\<lfloor>q\<rfloor>"] by simp
  with True show ?thesis by simp
next
  case False
  have b: "of_int \<lfloor>q\<rfloor> \<le> q" "q < of_int \<lfloor>q\<rfloor> + 1" by linarith+
  with False have lt: "of_int \<lfloor>q\<rfloor> < q" by linarith
  have fl: "\<lfloor>- q\<rfloor> = - \<lfloor>q\<rfloor> - 1"
  proof (rule floor_unique)
    show "of_int (- \<lfloor>q\<rfloor> - 1) \<le> - q" using b(2) by linarith
    show "- q < of_int (- \<lfloor>q\<rfloor> - 1) + 1" using lt by linarith
  qed
  show ?thesis
    using lt b(2) by (auto simp add: rne_def Let_def fl)
qed

text \<open>The exponent and the unit of a real.\<close>

lemma p2_pos: "0 < (2::real) powi e"
  by simp

lemma p2_add: "(2::real) powi (a + b) = 2 powi a * 2 powi b"
  by (rule power_int_add) simp

lemma p2_diff: "(2::real) powi (a - b) = 2 powi a / 2 powi b"
  by (rule power_int_diff) simp

lemma p2_Suc: "(2::real) powi (a + 1) = 2 * 2 powi a"
  by (simp add: p2_add)

lemma expo_minus: "expo (- x) = expo x"
  by (simp add: expo_def)

lemma ulp_pos: "0 < ulp x"
  by (simp add: ulp_def)

lemma ulp_minus: "ulp (- x) = ulp x"
  by (simp add: ulp_def expo_minus)

lemma expo_normal:
  assumes "2 powi (- 1022) \<le> \<bar>x\<bar>"
  shows "2 powi (expo x) \<le> \<bar>x\<bar>" and "\<bar>x\<bar> < 2 powi (expo x + 1)"
proof -
  let ?k = "\<lfloor>log 2 \<bar>x\<bar>\<rfloor>"
  have pos: "0 < \<bar>x\<bar>"
    using assms p2_pos [of "- 1022"] by linarith
  have "2 powr (of_int ?k) \<le> \<bar>x\<bar> \<and> \<bar>x\<bar> < 2 powr (of_int ?k + 1)"
    using pos floor_log_eq_powr_iff [of "\<bar>x\<bar>" 2 ?k] by simp
  then have "2 powr (of_int ?k) \<le> \<bar>x\<bar>" and "\<bar>x\<bar> < 2 powr (of_int (?k + 1))"
    by simp_all
  then have k: "2 powi ?k \<le> \<bar>x\<bar>" "\<bar>x\<bar> < 2 powi (?k + 1)"
    by (simp_all only: powr_powi)
  have "\<not> \<bar>x\<bar> < 2 powi (- 1022)" using assms by linarith
  then have "expo x = ?k" by (simp only: expo_def if_False)
  with k show "2 powi (expo x) \<le> \<bar>x\<bar>" and "\<bar>x\<bar> < 2 powi (expo x + 1)" by simp_all
qed

lemma expo_ge: "- 1022 \<le> expo x"
proof (cases "2 powi (- 1022) \<le> \<bar>x\<bar>")
  case True
  then have "\<bar>x\<bar> < 2 powi (expo x + 1)" by (rule expo_normal)
  with True have "(2::real) powi (- 1022) < 2 powi (expo x + 1)" by linarith
  then show ?thesis by (simp only: p2_less_iff)
next
  case False
  then show ?thesis by (simp add: expo_subnormal)
qed

lemma expo_upper: "\<bar>x\<bar> < 2 powi (expo x + 1)"
proof (cases "2 powi (- 1022) \<le> \<bar>x\<bar>")
  case True
  then show ?thesis by (rule expo_normal)
next
  case False
  then have "expo x = - 1022" by (simp add: expo_subnormal)
  moreover have "(2::real) powi (- 1022) < 2 powi (- 1022 + 1)" by (simp only: p2_less_iff)
  ultimately show ?thesis using False by simp
qed

lemma expo_le:
  assumes "\<bar>x\<bar> < 2 powi (e + 1)" "- 1022 \<le> e"
  shows "expo x \<le> e"
proof (cases "2 powi (- 1022) \<le> \<bar>x\<bar>")
  case True
  then have "2 powi (expo x) \<le> \<bar>x\<bar>" by (rule expo_normal)
  with assms(1) have "(2::real) powi (expo x) < 2 powi (e + 1)" by linarith
  then show ?thesis by (simp only: p2_less_iff)
next
  case False
  then have "expo x = - 1022" by (simp add: expo_subnormal)
  with assms(2) show ?thesis by simp
qed

lemma expo_ge_if:
  assumes "2 powi e \<le> \<bar>x\<bar>"
  shows "e \<le> expo x"
proof (cases "2 powi (- 1022) \<le> \<bar>x\<bar>")
  case True
  then have "\<bar>x\<bar> < 2 powi (expo x + 1)" by (rule expo_normal)
  with assms have "(2::real) powi e < 2 powi (expo x + 1)" by linarith
  then show ?thesis by (simp only: p2_less_iff)
next
  case False
  with assms have "(2::real) powi e < 2 powi (- 1022)" by linarith
  then have "e < - 1022" by (simp only: p2_less_iff)
  then show ?thesis using expo_ge [of x] by linarith
qed

text \<open>
  Rounding to the nearest double is odd, moves a real by at most half a unit and keeps
  its sign.
\<close>

lemma round_nearest_0: "round_nearest 0 = 0"
  by (simp add: round_nearest_def rne_def)

lemma round_nearest_minus: "round_nearest (- x) = - round_nearest x"
  by (simp add: round_nearest_def ulp_minus rne_minus)

lemma round_nearest_error: "\<bar>round_nearest x - x\<bar> \<le> ulp x / 2"
proof -
  have "round_nearest x - x = (of_int (rne (x / ulp x)) - x / ulp x) * ulp x"
    using ulp_pos [of x] by (simp add: round_nearest_def field_simps)
  then have "\<bar>round_nearest x - x\<bar> = \<bar>of_int (rne (x / ulp x)) - x / ulp x\<bar> * ulp x"
    using ulp_pos [of x] by (simp add: abs_mult)
  also have "\<dots> \<le> 1 / 2 * ulp x"
    using rne_error [of "x / ulp x"] ulp_pos [of x] by (intro mult_right_mono) simp_all
  finally show ?thesis by simp
qed

lemma round_nearest_nonneg: "0 \<le> x \<Longrightarrow> 0 \<le> round_nearest x"
proof -
  assume "0 \<le> x"
  then have "of_int 0 \<le> x / ulp x" using ulp_pos [of x] by simp
  then have "0 \<le> rne (x / ulp x)" by (rule rne_ge_int)
  then show ?thesis using ulp_pos [of x] by (simp add: round_nearest_def)
qed

lemma round_nearest_nonpos: "x \<le> 0 \<Longrightarrow> round_nearest x \<le> 0"
  using round_nearest_nonneg [of "- x"] by (simp add: round_nearest_minus)

text \<open>A multiple of the unit that bounds x bounds its rounding.\<close>

lemma round_nearest_le_multiple:
  assumes "x \<le> of_int M * ulp x"
  shows "round_nearest x \<le> of_int M * ulp x"
proof -
  have "x / ulp x \<le> of_int M" using assms ulp_pos [of x] by (simp add: field_simps)
  then have "rne (x / ulp x) \<le> M" by (rule rne_le_int)
  then show ?thesis using ulp_pos [of x] by (simp add: round_nearest_def)
qed

lemma round_nearest_ge_multiple:
  assumes "of_int M * ulp x \<le> x"
  shows "of_int M * ulp x \<le> round_nearest x"
proof -
  have "of_int M \<le> x / ulp x" using assms ulp_pos [of x] by (simp add: field_simps)
  then have "M \<le> rne (x / ulp x)" by (rule rne_ge_int)
  then show ?thesis using ulp_pos [of x] by (simp add: round_nearest_def)
qed

lemma p2_as_multiple:
  assumes "e \<le> k"
  shows "(2::real) powi k = of_int (2 ^ nat (k - e)) * 2 powi e"
proof -
  have "(2::real) powi k = 2 powi (k - e) * 2 powi e"
    using p2_add [of "k - e" e] by simp
  also have "(2::real) powi (k - e) = 2 ^ nat (k - e)"
    using assms by (simp add: power_int_def)
  finally show ?thesis by simp
qed

lemma round_nearest_bounds:
  assumes "2 powi (- 1022) \<le> \<bar>x\<bar>"
  shows "2 powi (expo x) \<le> \<bar>round_nearest x\<bar>" and "\<bar>round_nearest x\<bar> \<le> 2 powi (expo x + 1)"
proof -
  have main: "2 powi (expo y) \<le> round_nearest y \<and> round_nearest y \<le> 2 powi (expo y + 1)"
    if "2 powi (- 1022) \<le> y" for y :: real
  proof -
    have ypos: "0 < y" using that p2_pos [of "- 1022"] by linarith
    then have ay: "\<bar>y\<bar> = y" by simp
    have b: "2 powi (expo y) \<le> y" "y < 2 powi (expo y + 1)"
      using expo_normal [of y] that ay by simp_all
    have m1: "(2::real) powi (expo y) = of_int (2 ^ nat 52) * ulp y"
      unfolding ulp_def using p2_as_multiple [of "expo y - 52" "expo y"] by simp
    have m2: "(2::real) powi (expo y + 1) = of_int (2 ^ nat 53) * ulp y"
      unfolding ulp_def using p2_as_multiple [of "expo y - 52" "expo y + 1"] by simp
    have "of_int (2 ^ nat 52) * ulp y \<le> round_nearest y"
      using b(1) m1 by (intro round_nearest_ge_multiple) simp
    moreover have "round_nearest y \<le> of_int (2 ^ nat 53) * ulp y"
      using b(2) m2 by (intro round_nearest_le_multiple) simp
    ultimately show ?thesis using m1 m2 by simp
  qed
  show "2 powi (expo x) \<le> \<bar>round_nearest x\<bar>" and "\<bar>round_nearest x\<bar> \<le> 2 powi (expo x + 1)"
  proof -
    consider "0 \<le> x" | "x < 0" by linarith
    then have "2 powi (expo x) \<le> \<bar>round_nearest x\<bar> \<and> \<bar>round_nearest x\<bar> \<le> 2 powi (expo x + 1)"
    proof cases
      case 1
      then have "2 powi (- 1022) \<le> x" using assms by simp
      from main [OF this] show ?thesis
        using round_nearest_nonneg [of x] 1 by simp
    next
      case 2
      then have "2 powi (- 1022) \<le> - x" using assms by simp
      from main [OF this] show ?thesis
        using round_nearest_nonpos [of x] 2 by (simp add: round_nearest_minus expo_minus)
    qed
    then show "2 powi (expo x) \<le> \<bar>round_nearest x\<bar>" and "\<bar>round_nearest x\<bar> \<le> 2 powi (expo x + 1)"
      by simp_all
  qed
qed

text \<open>Rounding to the nearest double is monotone and idempotent.\<close>

lemma round_nearest_upper: "\<bar>round_nearest x\<bar> \<le> 2 powi (expo x + 1)"
proof -
  have m2: "(2::real) powi (expo x + 1) = of_int (2 ^ nat 53) * ulp x"
    unfolding ulp_def using p2_as_multiple [of "expo x - 52" "expo x + 1"] by simp
  have b: "\<bar>x\<bar> < 2 powi (expo x + 1)" by (rule expo_upper)
  have "round_nearest x \<le> of_int (2 ^ nat 53) * ulp x"
    using b m2 by (intro round_nearest_le_multiple) simp
  moreover have "of_int (- (2 ^ nat 53)) * ulp x \<le> round_nearest x"
    using b m2 by (intro round_nearest_ge_multiple) simp
  ultimately show ?thesis using m2 by simp
qed

lemma expo_mono:
  assumes "\<bar>x\<bar> \<le> \<bar>y\<bar>"
  shows "expo x \<le> expo y"
proof -
  have "\<bar>y\<bar> < 2 powi (expo y + 1)" by (rule expo_upper)
  with assms have "\<bar>x\<bar> < 2 powi (expo y + 1)" by linarith
  then show ?thesis using expo_ge [of y] by (intro expo_le) simp_all
qed

lemma expo_gt_normal:
  assumes "- 1022 < expo x"
  shows "2 powi (- 1022) \<le> \<bar>x\<bar>"
proof (rule ccontr)
  assume "\<not> 2 powi (- 1022) \<le> \<bar>x\<bar>"
  then have "expo x = - 1022" by (simp add: expo_subnormal)
  with assms show False by simp
qed

lemma round_nearest_mono_pos:
  assumes "0 < x" "x \<le> y"
  shows "round_nearest x \<le> round_nearest y"
proof -
  have e: "expo x \<le> expo y" using assms by (intro expo_mono) simp_all
  show ?thesis
  proof (cases "expo x = expo y")
    case True
    then have u: "ulp x = ulp y" by (simp add: ulp_def)
    have "x / ulp y \<le> y / ulp y" using assms(2) ulp_pos [of y] by (simp add: divide_right_mono)
    then have "rne (x / ulp y) \<le> rne (y / ulp y)" by (rule rne_mono)
    then show ?thesis using ulp_pos [of y] by (simp add: round_nearest_def u)
  next
    case False
    with e have lt: "expo x + 1 \<le> expo y" by simp
    then have "- 1022 < expo y" using expo_ge [of x] by linarith
    then have "2 powi (- 1022) \<le> \<bar>y\<bar>" by (rule expo_gt_normal)
    then have "2 powi (expo y) \<le> \<bar>round_nearest y\<bar>" by (rule round_nearest_bounds)
    moreover have "0 \<le> round_nearest y" using assms by (intro round_nearest_nonneg) simp
    moreover have "\<bar>round_nearest x\<bar> \<le> 2 powi (expo x + 1)"
      by (rule round_nearest_upper)
    moreover have "(2::real) powi (expo x + 1) \<le> 2 powi (expo y)"
      using lt by (simp only: p2_le_iff)
    ultimately show ?thesis by linarith
  qed
qed

lemma round_nearest_mono:
  assumes "x \<le> y"
  shows "round_nearest x \<le> round_nearest y"
proof -
  consider "0 < x" | "x \<le> 0" "0 \<le> y" | "y < 0" by linarith
  then show ?thesis
  proof cases
    case 1
    then show ?thesis using assms by (rule round_nearest_mono_pos)
  next
    case 2
    then show ?thesis
      using round_nearest_nonpos [of x] round_nearest_nonneg [of y] by linarith
  next
    case 3
    then have "0 < - y" "- y \<le> - x" using assms by simp_all
    then have "round_nearest (- y) \<le> round_nearest (- x)" by (rule round_nearest_mono_pos)
    then show ?thesis by (simp add: round_nearest_minus)
  qed
qed

lemma expo_round_nearest:
  shows "expo (round_nearest x) = expo x \<or> \<bar>round_nearest x\<bar> = 2 powi (expo x + 1)"
proof (cases "\<bar>round_nearest x\<bar> = 2 powi (expo x + 1)")
  case True
  then show ?thesis by simp
next
  case False
  with round_nearest_upper [of x]
  have up: "\<bar>round_nearest x\<bar> < 2 powi (expo x + 1)" by simp
  show ?thesis
  proof (cases "2 powi (- 1022) \<le> \<bar>x\<bar>")
    case True
    then have "2 powi (expo x) \<le> \<bar>round_nearest x\<bar>" by (rule round_nearest_bounds)
    then have "expo (round_nearest x) = expo x"
      using up expo_ge [of x] by (intro expo_eqI) simp_all
    then show ?thesis by simp
  next
    case sub: False
    then have ex: "expo x = - 1022" by (simp add: expo_subnormal)
    have "expo (round_nearest x) \<le> - 1022"
      using up by (intro expo_le) (simp_all add: ex)
    then have "expo (round_nearest x) = - 1022" using expo_ge [of "round_nearest x"] by linarith
    then show ?thesis using ex by simp
  qed
qed

lemma round_nearest_idem: "round_nearest (round_nearest x) = round_nearest x"
proof -
  let ?y = "round_nearest x"
  let ?m = "rne (x / ulp x)"
  have y: "?y = of_int ?m * ulp x" by (simp add: round_nearest_def)
  have "\<exists>M::int. ?y = of_int M * ulp ?y"
  proof (cases "expo ?y = expo x")
    case True
    then have "ulp ?y = ulp x" by (simp add: ulp_def)
    with y show ?thesis by auto
  next
    case False
    with expo_round_nearest [of x] have top: "\<bar>?y\<bar> = 2 powi (expo x + 1)" by simp
    have "2 powi (expo x + 1) \<le> \<bar>?y\<bar>" "\<bar>?y\<bar> < 2 powi (expo x + 1 + 1)"
      using top by (simp_all only: p2_less_iff order_refl)
    then have ey: "expo ?y = expo x + 1" using expo_ge [of x] by (intro expo_eqI) simp_all
    have "(2::real) powi (expo x + 1) = of_int (2 ^ nat 52) * ulp ?y"
      unfolding ulp_def ey using p2_as_multiple [of "expo x + 1 - 52" "expo x + 1"] by simp
    with top have "?y = of_int (2 ^ nat 52) * ulp ?y \<or> ?y = of_int (- (2 ^ nat 52)) * ulp ?y"
      by (cases "0 \<le> ?y") simp_all
    then show ?thesis by blast
  qed
  then obtain M :: int where M: "?y = of_int M * ulp ?y" by blast
  then have "?y / ulp ?y = of_int M" using ulp_pos [of ?y] by (simp add: field_simps)
  then have "rne (?y / ulp ?y) = M" by (simp only: rne_of_int)
  then have "round_nearest ?y = of_int M * ulp ?y" by (simp add: round_nearest_def)
  with M show ?thesis by simp
qed

lemma is_double_minus: "is_double (- x) = is_double x"
  by (auto simp add: is_double_def round_nearest_minus)

lemma overflow_threshold_pos: "0 < overflow_threshold"
  unfolding overflow_threshold_def by (rule p2_pos)

lemma is_double_0: "is_double 0"
  by (simp add: is_double_def round_nearest_0 overflow_threshold_pos)

lemma on_grid_multiple:
  assumes "round_nearest c = c" "e \<le> expo c"
  shows "\<exists>M::int. c = of_int M * 2 powi (e - 52)"
proof -
  have "c = of_int (rne (c / ulp c)) * ulp c" using assms(1) by (simp add: round_nearest_def)
  moreover have "ulp c = of_int (2 ^ nat (expo c - e)) * 2 powi (e - 52)"
    unfolding ulp_def using p2_as_multiple [of "e - 52" "expo c - 52"] assms(2) by simp
  ultimately have "c = of_int (rne (c / ulp c) * 2 ^ nat (expo c - e)) * 2 powi (e - 52)"
    by simp
  then show ?thesis by blast
qed

text \<open>
  A multiple of the unit of a binade that does not lie above the binade is a double; so
  is every integer below \<open>2 ^ 53\<close> in magnitude.
\<close>

lemma round_nearest_multiple:
  assumes "x = of_int M * 2 powi (e - 52)" "expo x \<le> e"
  shows "round_nearest x = x"
proof -
  have "(2::real) powi (e - 52) = of_int (2 ^ nat (e - expo x)) * ulp x"
    unfolding ulp_def using p2_as_multiple [of "expo x - 52" "e - 52"] assms(2) by simp
  with assms(1) have "x = of_int (M * 2 ^ nat (e - expo x)) * ulp x" by simp
  then have "x / ulp x = of_int (M * 2 ^ nat (e - expo x))"
    using ulp_pos [of x] by (simp add: field_simps)
  then have "rne (x / ulp x) = M * 2 ^ nat (e - expo x)" by (simp only: rne_of_int)
  then have "round_nearest x = of_int (M * 2 ^ nat (e - expo x)) * ulp x"
    by (simp add: round_nearest_def)
  with \<open>x = of_int (M * 2 ^ nat (e - expo x)) * ulp x\<close> show ?thesis by simp
qed

lemma round_nearest_of_int:
  assumes "\<bar>k\<bar> < 2 ^ 53"
  shows "round_nearest (of_int k) = of_int k"
proof (rule round_nearest_multiple [where M = k and e = 52])
  show "real_of_int k = real_of_int k * 2 powi (52 - 52)" by simp
  have "\<bar>real_of_int k\<bar> < 2 ^ 53" using assms by (metis of_int_abs of_int_less_numeral_power_cancel_iff)
  then have "\<bar>real_of_int k\<bar> < 2 powi (52 + 1)" by simp
  then show "expo (real_of_int k) \<le> 52" by (rule expo_le) simp
qed

lemma is_double_of_int: "\<bar>k\<bar> < 2 ^ 53 \<Longrightarrow> is_double (of_int k)"
proof -
  assume a: "\<bar>k\<bar> < 2 ^ 53"
  then have "\<bar>real_of_int k\<bar> < 2 ^ 53" by (metis of_int_abs of_int_less_numeral_power_cancel_iff)
  moreover have "(2::real) powi 53 < 2 powi 1024"
    by (simp only: p2_less_iff)
  then have "(2::real) ^ 53 < overflow_threshold"
    by (simp add: overflow_threshold_def)
  ultimately show ?thesis using round_nearest_of_int [OF a] by (simp add: is_double_def)
qed

text \<open>
  The quotient of a double by 360 is never rounded up to an integer that it is below: the
  doubles next to the integer \<open>N\<close> are closer to it than the quotients of the doubles
  next to \<open>360 * N\<close>.
\<close>

lemma quotient_normal:
  fixes a :: real
  assumes "2 powi (- 1000) \<le> \<bar>a\<bar>"
  shows "2 powi (- 1022) \<le> \<bar>a / 360\<bar>"
proof -
  have "(2::real) powi (- 1022) * 360 \<le> 2 powi (- 1022) * 2 powi 9"
    by (intro mult_left_mono) simp_all
  also have "\<dots> = 2 powi (- 1022 + 9)" by (simp only: p2_add)
  also have "\<dots> \<le> 2 powi (- 1000)" by (simp only: p2_le_iff)
  finally have "(2::real) powi (- 1022) * 360 \<le> \<bar>a\<bar>" using assms by linarith
  then show ?thesis by (simp add: field_simps)
qed

lemma quotient_expo:
  fixes a :: real
  assumes "2 powi (- 1000) \<le> \<bar>a\<bar>"
  shows "expo (a / 360) + 8 \<le> expo a"
proof -
  have ea: "- 1000 \<le> expo a" using assms by (rule expo_ge_if)
  have "\<bar>a\<bar> < 2 powi (expo a + 1)" by (rule expo_upper)
  then have "\<bar>a\<bar> / 360 < 2 powi (expo a + 1) / 2 powi 8"
    using p2_pos [of "expo a + 1"] by (simp add: field_simps)
  then have "\<bar>a / 360\<bar> < 2 powi (expo a - 8 + 1)"
    using p2_diff [of "expo a + 1" 8] by simp
  then have "expo (a / 360) \<le> expo a - 8" using ea by (intro expo_le) simp_all
  then show ?thesis by simp
qed

lemma no_round_up:
  assumes grid: "round_nearest a = a"
    and N: "N \<noteq> 0" "\<bar>N\<bar> * 360 < 2 ^ 53"
    and lt: "a < 360 * of_int N"
    and big: "2 powi (- 1000) \<le> \<bar>a\<bar>"
  shows "round_nearest (a / 360) < of_int N"
proof (rule ccontr)
  let ?x = "a / 360"
  let ?h = "(2::real) powi (expo ?x - 53)"
  let ?g = "(2::real) powi (expo ?x + 8 - 52)"
  assume "\<not> round_nearest ?x < of_int N"
  then have ge: "of_int N \<le> round_nearest ?x" by simp
  have Nb: "\<bar>N\<bar> < 2 ^ 53" using N(2) by linarith
  have "?x \<le> of_int N" using lt by simp
  then have "round_nearest ?x \<le> round_nearest (of_int N)" by (rule round_nearest_mono)
  with ge have eq: "round_nearest ?x = of_int N" by (simp add: round_nearest_of_int [OF Nb])
  have normal: "2 powi (- 1022) \<le> \<bar>?x\<bar>" using big by (rule quotient_normal)
  have "2 powi (expo ?x) \<le> \<bar>round_nearest ?x\<bar>" using normal by (rule round_nearest_bounds)
  then have lowN: "2 powi (expo ?x) \<le> \<bar>real_of_int N\<bar>" by (simp only: eq)
  have "(2::real) powi (expo ?x + 8) = 2 powi (expo ?x) * 2 powi 8" by (simp only: p2_add)
  also have "\<dots> \<le> \<bar>real_of_int N\<bar> * 360"
    using lowN p2_pos [of "expo ?x"] by (intro mult_mono) simp_all
  finally have "2 powi (expo ?x + 8) \<le> \<bar>real_of_int (360 * N)\<bar>" by (simp add: abs_mult)
  then have e1: "expo ?x + 8 \<le> expo (real_of_int (360 * N))" by (rule expo_ge_if)
  have e2: "expo ?x + 8 \<le> expo a" using big by (rule quotient_expo)
  have "\<bar>360 * N\<bar> < 2 ^ 53" using N(2) by (simp add: abs_mult)
  then have "round_nearest (real_of_int (360 * N)) = real_of_int (360 * N)"
    by (rule round_nearest_of_int)
  from on_grid_multiple [OF this e1] obtain B :: int
    where B: "real_of_int (360 * N) = of_int B * ?g" by blast
  from on_grid_multiple [OF grid e2] obtain A :: int
    where A: "a = of_int A * ?g" by blast
  have gpos: "0 < ?g" by simp
  have "of_int A * ?g < of_int B * ?g" using lt A B by simp
  then have "real_of_int A < real_of_int B" using gpos by (simp only: mult_less_cancel_right_pos)
  then have "A + 1 \<le> B" by simp
  then have "real_of_int A + 1 \<le> real_of_int B" by (metis of_int_1 of_int_add of_int_le_iff)
  then have "(real_of_int A + 1) * ?g \<le> real_of_int B * ?g"
    using gpos by (simp only: mult_le_cancel_right_pos)
  then have gap: "?g \<le> 360 * of_int N - a" using A B by (simp add: algebra_simps)
  have "\<bar>round_nearest ?x - ?x\<bar> \<le> ulp ?x / 2" by (rule round_nearest_error)
  moreover have "ulp ?x / 2 = ?h"
    unfolding ulp_def using p2_diff [of "expo ?x - 52" 1] by simp
  ultimately have err: "of_int N - ?x \<le> ?h" using eq by simp
  have "?g = ?h * 2 powi 9" using p2_add [of "expo ?x - 53" 9] by simp
  then have gh: "?g = 512 * ?h" by simp
  have "360 * (of_int N - ?x) = 360 * of_int N - a" by simp
  with gap have "512 * ?h \<le> 360 * (of_int N - ?x)" using gh by simp
  moreover have "360 * (of_int N - ?x) \<le> 360 * ?h"
    using err by (intro mult_left_mono) simp_all
  ultimately have "512 * ?h \<le> 360 * ?h" by (rule order_trans)
  moreover have "0 < ?h" by simp
  ultimately show False by simp
qed

section \<open>Operations on doubles\<close>

text \<open>
  An operation on finite doubles that does not overflow returns a finite double, whose
  value is the exact result rounded.
\<close>

lemma val64_zero64: "val64 (zero64 s) = 0" and is_finite_zero64: "is_finite (zero64 s)"
  by (simp_all add: zero64_def)

lemma round64_val:
  assumes "\<bar>round_nearest r\<bar> < overflow_threshold"
  shows "is_finite (round64 s r)" and "val64 (round64 s r) = round_nearest r"
  using assms by (simp_all add: round64_def val64_zero64 is_finite_zero64 round_nearest_0)

lemma is_finite_cases: "is_finite d \<longleftrightarrow> d \<noteq> NaN \<and> \<not> is_infinite d"
  by (cases d) (simp_all add: is_infinite_def)

lemma is_finite_Finite: "is_finite d \<Longrightarrow> val64 d \<noteq> 0 \<Longrightarrow> d = Finite (val64 d)"
  by (cases d) simp_all

lemma is_zero_val: "is_finite d \<Longrightarrow> is_zero d \<longleftrightarrow> val64 d = 0"
  by (cases d) (simp_all add: is_zero_def)

lemma divide_val:
  assumes "is_finite x" "is_finite y" "val64 y \<noteq> 0" "\<bar>round_nearest (val64 x / val64 y)\<bar> < overflow_threshold"
  shows "is_finite (x / y)" and "val64 (x / y) = round_nearest (val64 x / val64 y)"
  using assms
  by (cases x; cases y; simp add: divide_double_def is_infinite_def is_zero_def round64_val)+

lemma times_val:
  assumes "is_finite x" "is_finite y" "\<bar>round_nearest (val64 x * val64 y)\<bar> < overflow_threshold"
  shows "is_finite (x * y)" and "val64 (x * y) = round_nearest (val64 x * val64 y)"
  using assms
  by (cases x; cases y; simp add: times_double_def is_infinite_def is_zero_def round64_val)+

lemma uminus_val: "is_finite x \<Longrightarrow> is_finite (- x)" "val64 (- x) = - val64 x"
  by (cases x; simp add: uminus_double_def)+

lemma plus_val:
  assumes "is_finite x" "is_finite y" "\<bar>round_nearest (val64 x + val64 y)\<bar> < overflow_threshold"
  shows "is_finite (x + y)" and "val64 (x + y) = round_nearest (val64 x + val64 y)"
  using assms
  by (cases x; cases y; simp add: plus_double_def is_infinite_def round64_val)+

lemma minus_val:
  assumes "is_finite x" "is_finite y" "\<bar>round_nearest (val64 x - val64 y)\<bar> < overflow_threshold"
  shows "is_finite (x - y)" and "val64 (x - y) = round_nearest (val64 x - val64 y)"
  using assms plus_val [of x "- y"] by (simp_all add: minus_double_def uminus_val)

lemma floor_val:
  assumes "is_finite x"
  shows "is_finite (Math_floor64 x)" and "val64 (Math_floor64 x) = of_int \<lfloor>val64 x\<rfloor>"
  using assms by (cases x; simp add: Math_floor64_def)+

lemma noRevolutions64_val:
  assumes "is_finite a"
    and "\<bar>round_nearest (val64 a / 360)\<bar> < overflow_threshold"
    and "\<bar>round_nearest (360 * of_int \<lfloor>round_nearest (val64 a / 360)\<rfloor>)\<bar> < overflow_threshold"
    and "\<bar>round_nearest (val64 a - round_nearest (360 * of_int \<lfloor>round_nearest (val64 a / 360)\<rfloor>))\<bar> < overflow_threshold"
  shows "is_finite (noRevolutions64 a)"
    and "val64 (noRevolutions64 a) =
          round_nearest (val64 a - round_nearest (360 * of_int \<lfloor>round_nearest (val64 a / 360)\<rfloor>))"
proof -
  let ?q = "a / Finite 360"
  have q: "is_finite ?q" "val64 ?q = round_nearest (val64 a / 360)"
    using divide_val [of a "Finite 360"] assms(1,2) by simp_all
  let ?f = "Math_floor64 ?q"
  have f: "is_finite ?f" "val64 ?f = of_int \<lfloor>round_nearest (val64 a / 360)\<rfloor>"
    using floor_val [OF q(1)] q(2) by simp_all
  let ?p = "Finite 360 * ?f"
  have p: "is_finite ?p" "val64 ?p = round_nearest (360 * of_int \<lfloor>round_nearest (val64 a / 360)\<rfloor>)"
    using times_val [of "Finite 360" ?f] f assms(3) by simp_all
  have r: "is_finite (a - ?p)" "val64 (a - ?p) = round_nearest (val64 a - val64 ?p)"
    using minus_val [of a ?p] assms(1,4) p by simp_all
  show "is_finite (noRevolutions64 a)"
    using r(1) by (simp add: noRevolutions64_def Let_def)
  show "val64 (noRevolutions64 a) =
          round_nearest (val64 a - round_nearest (360 * of_int \<lfloor>round_nearest (val64 a / 360)\<rfloor>))"
    using r(2) p(2) by (simp add: noRevolutions64_def Let_def)
qed

lemma below_threshold:
  fixes v :: real
  assumes "\<bar>v\<bar> \<le> 2 ^ 53"
  shows "\<bar>v\<bar> < overflow_threshold"
proof -
  have "(2::real) powi 53 < 2 powi 1024" by (simp only: p2_less_iff)
  then have "(2::real) ^ 53 < overflow_threshold" by (simp add: overflow_threshold_def)
  with assms show ?thesis by linarith
qed

lemma round_nearest_p2:
  assumes "- 1022 \<le> e"
  shows "round_nearest (2 powi e) = 2 powi e"
proof (rule round_nearest_multiple [where M = "2 ^ 52" and e = e])
  show "(2::real) powi e = real_of_int (2 ^ 52) * 2 powi (e - 52)"
    using p2_as_multiple [of "e - 52" e] by simp
  have "\<bar>(2::real) powi e\<bar> < 2 powi (e + 1)" by (simp add: p2_less_iff)
  then show "expo (2 powi e) \<le> e" using assms by (rule expo_le)
qed

text \<open>The floor of the rounded quotient is the floor of the exact quotient.\<close>

lemma quotient_floor:
  fixes a :: real
  assumes grid: "round_nearest a = a"
    and hi: "\<bar>a\<bar> \<le> 2 ^ 52"
    and lo: "0 \<le> a \<or> a \<le> - (2 powi (- 1000))"
  shows "\<lfloor>round_nearest (a / 360)\<rfloor> = \<lfloor>a / 360\<rfloor>"
proof -
  define x where "x = a / 360"
  define y where "y = round_nearest x"
  define n where "n = \<lfloor>x\<rfloor>"
  have xb: "\<bar>x\<bar> \<le> 2 ^ 44"
  proof -
    have "\<bar>a\<bar> \<le> 2 ^ 44 * 360" using hi by simp
    then show ?thesis by (simp add: x_def field_simps)
  qed
  have fl: "of_int n \<le> x" "x < of_int n + 1" unfolding n_def by linarith+
  have "real_of_int n \<le> 2 ^ 44" using fl(1) xb by linarith
  then have n_hi: "n \<le> 2 ^ 44" by (metis of_int_le_numeral_power_cancel_iff)
  have "- (2 ^ 44) - 1 < real_of_int n" using fl(2) xb by linarith
  then have "real_of_int (- (2 ^ 44) - 1) < real_of_int n" by simp
  then have n_lo: "- (2 ^ 44) - 1 < n" by (simp only: of_int_less_iff)
  have n53: "\<bar>n\<bar> < 2 ^ 53" using n_hi n_lo by simp
  have "\<bar>n + 1\<bar> \<le> 2 ^ 44 + 1" using n_hi n_lo by linarith
  then have "\<bar>n + 1\<bar> * 360 \<le> (2 ^ 44 + 1) * 360" by (rule mult_right_mono) simp
  also have "\<dots> < 2 ^ 53" by simp
  finally have N53: "\<bar>n + 1\<bar> * 360 < 2 ^ 53" .
  have "round_nearest (of_int n) \<le> y" unfolding y_def using fl(1) by (rule round_nearest_mono)
  then have lower: "of_int n \<le> y" by (simp only: round_nearest_of_int [OF n53])
  have upper: "y < of_int n + 1"
  proof (cases "0 \<le> a \<and> a < 2 powi (- 1000)")
    case True
    then have "x \<le> 2 powi (- 1000)" by (simp add: x_def)
    then have "y \<le> round_nearest (2 powi (- 1000))" unfolding y_def by (rule round_nearest_mono)
    then have "y \<le> 2 powi (- 1000)" by (simp only: round_nearest_p2; simp)
    moreover have "(2::real) powi (- 1000) < 2 powi 0" by (simp only: p2_less_iff; simp)
    moreover have "0 \<le> x" using True by (simp add: x_def)
    then have "0 \<le> n" unfolding n_def by simp
    ultimately show ?thesis by simp
  next
    case False
    with lo have big: "2 powi (- 1000) \<le> \<bar>a\<bar>" by auto
    show ?thesis
    proof (cases "n + 1 = 0")
      case True
      then have "x < 0" using fl(2) by simp
      then have "y \<le> 0" unfolding y_def by (intro round_nearest_nonpos) simp
      moreover have "2 powi (expo x) \<le> \<bar>y\<bar>"
        unfolding x_def y_def using quotient_normal [OF big] by (rule round_nearest_bounds)
      then have "y \<noteq> 0" using p2_pos [of "expo x"] by linarith
      ultimately show ?thesis using True by simp
    next
      case nz: False
      have "a < 360 * of_int (n + 1)" using fl(2) by (simp add: x_def)
      with N53 have "round_nearest (a / 360) < of_int (n + 1)"
        using grid nz big by (intro no_round_up) simp_all
      then show ?thesis by (simp add: y_def x_def)
    qed
  qed
  from lower upper have "\<lfloor>y\<rfloor> = n" by (intro floor_unique) simp_all
  then show ?thesis by (simp add: y_def x_def n_def)
qed

section \<open>Normalization of doubles\<close>

text \<open>
  On the doubles of magnitude at most \<open>2 ^ 52\<close>, the negative ones above \<open>- 2 ^ (- 1000)\<close>
  left out, the quotient has the floor of the exact quotient and the product
  \<^verbatim>\<open>360 * revolutions\<close> is exact: the one rounding of \<open>noRevolutions64\<close> is that of the
  final subtraction.
\<close>

lemma round_nearest_abs_le_int:
  assumes "\<bar>x\<bar> \<le> of_int K" "\<bar>K\<bar> < 2 ^ 53"
  shows "\<bar>round_nearest x\<bar> \<le> of_int K"
proof -
  have k: "round_nearest (of_int K) = of_int K" using assms(2) by (rule round_nearest_of_int)
  have "\<bar>- K\<bar> < 2 ^ 53" using assms(2) by simp
  then have "round_nearest (of_int (- K)) = of_int (- K)" by (rule round_nearest_of_int)
  then have mk: "round_nearest (- of_int K) = - of_int K" by simp
  have "x \<le> of_int K" "- of_int K \<le> x" using assms(1) by linarith+
  then have "round_nearest x \<le> round_nearest (of_int K)"
    and "round_nearest (- of_int K) \<le> round_nearest x"
    by (simp_all only: round_nearest_mono)
  then show ?thesis by (simp only: k mk; linarith)
qed

lemma floor_remainder:
  fixes a :: real
  shows "0 \<le> a - 360 * of_int \<lfloor>a / 360\<rfloor>" "a - 360 * of_int \<lfloor>a / 360\<rfloor> < 360"
proof -
  have "of_int \<lfloor>a / 360\<rfloor> \<le> a / 360" and "a / 360 < of_int \<lfloor>a / 360\<rfloor> + 1"
    by linarith+
  then show "0 \<le> a - 360 * of_int \<lfloor>a / 360\<rfloor>" "a - 360 * of_int \<lfloor>a / 360\<rfloor> < 360"
    by (simp_all add: field_simps)
qed

lemma noRevolutions64_rounded_formula:
  assumes fin: "is_finite d"
    and dbl: "is_double (val64 d)"
    and hi: "\<bar>val64 d\<bar> \<le> 2 ^ 52"
    and lo: "0 \<le> val64 d \<or> val64 d \<le> - (2 powi (- 1000))"
  shows "is_finite (noRevolutions64 d)"
    and "val64 (noRevolutions64 d) = round_nearest (val64 d - 360 * of_int \<lfloor>val64 d / 360\<rfloor>)"
proof -
  define a where "a = val64 d"
  define n where "n = \<lfloor>a / 360\<rfloor>"
  have grid: "round_nearest a = a" using dbl by (simp add: is_double_def a_def)
  have fq: "\<lfloor>round_nearest (a / 360)\<rfloor> = n"
    unfolding n_def using grid hi lo by (intro quotient_floor) (simp_all add: a_def)
  have "\<bar>a / 360\<bar> \<le> 2 ^ 52" using hi by (simp add: a_def)
  then have "\<bar>a / 360\<bar> \<le> real_of_int (2 ^ 52)" by simp
  then have "\<bar>round_nearest (a / 360)\<bar> \<le> real_of_int (2 ^ 52)"
    by (rule round_nearest_abs_le_int) simp
  then have c1: "\<bar>round_nearest (a / 360)\<bar> < overflow_threshold"
    by (intro below_threshold) simp
  have rem: "0 \<le> a - 360 * of_int n" "a - 360 * of_int n < 360"
    unfolding n_def by (rule floor_remainder)+
  have "\<bar>360 * real_of_int n\<bar> \<le> 2 ^ 52 + 360" using rem hi by (simp add: a_def; linarith)
  then have nb: "\<bar>real_of_int (360 * n)\<bar> < 2 ^ 53" by simp
  then have "\<bar>360 * n\<bar> < 2 ^ 53" by (metis of_int_abs of_int_less_numeral_power_cancel_iff)
  then have "round_nearest (real_of_int (360 * n)) = real_of_int (360 * n)"
    by (rule round_nearest_of_int)
  then have p: "round_nearest (360 * real_of_int n) = 360 * real_of_int n" by simp
  have c2: "\<bar>round_nearest (360 * real_of_int n)\<bar> < overflow_threshold"
    using nb by (simp only: p) (intro below_threshold, simp)
  have "\<bar>a - 360 * of_int n\<bar> \<le> real_of_int 360" using rem by simp
  then have "\<bar>round_nearest (a - 360 * of_int n)\<bar> \<le> real_of_int 360"
    by (rule round_nearest_abs_le_int) simp
  then have c3: "\<bar>round_nearest (a - 360 * of_int n)\<bar> < overflow_threshold"
    by (intro below_threshold) simp
  have v: "is_finite (noRevolutions64 d) \<and>
        val64 (noRevolutions64 d) = round_nearest (a - 360 * of_int n)"
    using fin c1 c2 c3 noRevolutions64_val [of d]
    by (simp add: a_def [symmetric] fq p)
  then show "is_finite (noRevolutions64 d)" by simp
  from v show "val64 (noRevolutions64 d) = round_nearest (val64 d - 360 * of_int \<lfloor>val64 d / 360\<rfloor>)"
    by (simp add: a_def n_def)
qed

lemma js_eq64_finite:
  "is_finite x \<Longrightarrow> is_finite y \<Longrightarrow> js_eq64 x y \<longleftrightarrow> val64 x = val64 y"
  by (cases x; cases y; simp add: js_eq64_def is_infinite_def)

lemma is_double_bounded:
  assumes "round_nearest r = r" "\<bar>r\<bar> \<le> 2 ^ 53"
  shows "is_double r"
  using assms below_threshold [of r] by (simp add: is_double_def)

lemma noRevolutions64_result:
  assumes fin: "is_finite d"
    and dbl: "is_double (val64 d)"
    and hi: "\<bar>val64 d\<bar> \<le> 2 ^ 52"
    and lo: "0 \<le> val64 d \<or> val64 d \<le> - (2 powi (- 1000))"
  shows "0 \<le> val64 (noRevolutions64 d)"
    and "val64 (noRevolutions64 d) \<le> 360"
    and "is_double (val64 (noRevolutions64 d))"
proof -
  let ?r = "val64 d - 360 * of_int \<lfloor>val64 d / 360\<rfloor>"
  have v: "val64 (noRevolutions64 d) = round_nearest ?r"
    using assms by (rule noRevolutions64_rounded_formula)
  have rem: "0 \<le> ?r" "?r < 360" by (rule floor_remainder)+
  have "round_nearest (of_int 360) = of_int 360" by (rule round_nearest_of_int) simp
  then have r360: "round_nearest 360 = 360" by simp
  show lo': "0 \<le> val64 (noRevolutions64 d)"
    using rem(1) by (simp only: v round_nearest_nonneg)
  have "round_nearest ?r \<le> round_nearest 360"
    using rem(2) by (intro round_nearest_mono) simp
  then show hi': "val64 (noRevolutions64 d) \<le> 360"
    by (simp only: v r360)
  have "round_nearest (val64 (noRevolutions64 d)) = val64 (noRevolutions64 d)"
    by (simp only: v round_nearest_idem)
  moreover have "\<bar>val64 (noRevolutions64 d)\<bar> \<le> 2 ^ 53"
    using lo' hi' by simp
  ultimately show "is_double (val64 (noRevolutions64 d))"
    by (rule is_double_bounded)
qed

lemma noRevolutions64_fixed:
  assumes fin: "is_finite d"
    and dbl: "is_double (val64 d)"
    and range: "0 \<le> val64 d" "val64 d < 360"
  shows "is_finite (noRevolutions64 d)"
    and "val64 (noRevolutions64 d) = val64 d"
proof -
  have hi: "\<bar>val64 d\<bar> \<le> 2 ^ 52" using range by simp
  have lo: "0 \<le> val64 d \<or> val64 d \<le> - (2 powi (- 1000))" using range by simp
  show "is_finite (noRevolutions64 d)"
    using fin dbl hi lo by (rule noRevolutions64_rounded_formula)
  have f: "\<lfloor>val64 d / 360\<rfloor> = 0" using range by (simp add: floor_eq_iff)
  have "val64 (noRevolutions64 d) = round_nearest (val64 d - 360 * of_int \<lfloor>val64 d / 360\<rfloor>)"
    using fin dbl hi lo by (rule noRevolutions64_rounded_formula)
  then show "val64 (noRevolutions64 d) = val64 d"
    using dbl by (simp add: f is_double_def)
qed

lemma noRevolutions64_int:
  assumes fin: "is_finite d" and v: "val64 d = of_int k" and k: "\<bar>k\<bar> \<le> 2 ^ 52"
  shows "is_finite (noRevolutions64 d)"
    and "val64 (noRevolutions64 d) = of_int (k mod 360)"
proof -
  have "\<bar>k\<bar> < 2 ^ 53" using k by simp
  then have dbl: "is_double (val64 d)" by (simp add: v is_double_of_int)
  have "\<bar>real_of_int k\<bar> \<le> real_of_int (2 ^ 52)"
    using k by (simp only: of_int_abs [symmetric] of_int_le_iff)
  then have hi: "\<bar>val64 d\<bar> \<le> 2 ^ 52" by (simp add: v)
  have lo: "0 \<le> val64 d \<or> val64 d \<le> - (2 powi (- 1000))"
  proof (cases "0 \<le> k")
    case True
    then show ?thesis by (simp add: v)
  next
    case False
    then have "k \<le> - 1" by simp
    then have "real_of_int k \<le> - 1" by (metis of_int_le_iff of_int_minus of_int_1)
    moreover have "(2::real) powi (- 1000) \<le> 2 powi 0" by (simp only: p2_le_iff)
    ultimately show ?thesis by (simp add: v)
  qed
  show "is_finite (noRevolutions64 d)"
    using fin dbl hi lo by (rule noRevolutions64_rounded_formula)
  have "real_of_int k / 360 = real_of_int k / real_of_int 360" by simp
  then have f: "\<lfloor>real_of_int k / 360\<rfloor> = k div 360"
    by (simp only: floor_divide_of_int_eq)
  have "real_of_int k - 360 * real_of_int (k div 360) = real_of_int (k - 360 * (k div 360))"
    by simp
  also have "k - 360 * (k div 360) = k mod 360"
    by (simp add: minus_mult_div_eq_mod)
  finally have r: "real_of_int k - 360 * real_of_int (k div 360) = real_of_int (k mod 360)" .
  have "0 \<le> k mod 360" "k mod 360 < 360" by simp_all
  then have "\<bar>k mod 360\<bar> < 2 ^ 53" by simp
  then have rn: "round_nearest (real_of_int (k mod 360)) = real_of_int (k mod 360)"
    by (rule round_nearest_of_int)
  have "val64 (noRevolutions64 d) = round_nearest (val64 d - 360 * of_int \<lfloor>val64 d / 360\<rfloor>)"
    using fin dbl hi lo by (rule noRevolutions64_rounded_formula)
  then show "val64 (noRevolutions64 d) = of_int (k mod 360)"
    by (simp add: v f r rn)
qed

lemma remainder_shift:
  fixes r :: real
  shows "(r + 360 * of_int k) - 360 * of_int \<lfloor>(r + 360 * of_int k) / 360\<rfloor>
         = r - 360 * of_int \<lfloor>r / 360\<rfloor>"
proof -
  have "(r + 360 * of_int k) / 360 = r / 360 + of_int k" by simp
  then have "\<lfloor>(r + 360 * of_int k) / 360\<rfloor> = \<lfloor>r / 360\<rfloor> + k"
    by (simp only: floor_add_int)
  then show ?thesis by (simp add: algebra_simps)
qed

lemma noRevolutions64_shift:
  assumes "is_finite d" "is_double (val64 d)" "\<bar>val64 d\<bar> \<le> 2 ^ 52"
      "0 \<le> val64 d \<or> val64 d \<le> - (2 powi (- 1000))"
    and "is_finite d'" "is_double (val64 d')" "\<bar>val64 d'\<bar> \<le> 2 ^ 52"
      "0 \<le> val64 d' \<or> val64 d' \<le> - (2 powi (- 1000))"
    and "val64 d' = val64 d + 360 * of_int k"
  shows "js_eq64 (noRevolutions64 d') (noRevolutions64 d)"
proof -
  have 1: "is_finite (noRevolutions64 d)"
    and 2: "val64 (noRevolutions64 d) = round_nearest (val64 d - 360 * of_int \<lfloor>val64 d / 360\<rfloor>)"
    using assms(1-4) by (rule noRevolutions64_rounded_formula)+
  have 3: "is_finite (noRevolutions64 d')"
    and 4: "val64 (noRevolutions64 d') = round_nearest (val64 d' - 360 * of_int \<lfloor>val64 d' / 360\<rfloor>)"
    using assms(5-8) by (rule noRevolutions64_rounded_formula)+
  have "val64 (noRevolutions64 d') = val64 (noRevolutions64 d)"
    by (simp only: 2 4 assms(9) remainder_shift)
  then show ?thesis using 1 3 by (simp add: js_eq64_finite)
qed

text \<open>
  The values of \<open>noRevolutions64\<close> at four doubles: \<open>- 2 ^ (- 60)\<close>, \<open>- 13 * 2 ^ 56\<close>,
  \<open>13 * 2 ^ 58\<close> and the negative double nearest to zero, \<open>- 2 ^ (- 1074)\<close>.
\<close>

lemma below_threshold_big:
  fixes v :: real
  assumes "\<bar>v\<bar> \<le> 2 powi 1023"
  shows "\<bar>v\<bar> < overflow_threshold"
proof -
  have "(2::real) powi 1023 < 2 powi 1024" by (simp only: p2_less_iff)
  with assms show ?thesis by (simp add: overflow_threshold_def)
qed

lemma noRevolutions64_eval:
  assumes "round_nearest (a / 360) = q"
    and "round_nearest (360 * of_int \<lfloor>q\<rfloor>) = p"
    and "round_nearest (a - p) = r"
    and "\<bar>q\<bar> \<le> 2 powi 1023" "\<bar>p\<bar> \<le> 2 powi 1023" "\<bar>r\<bar> \<le> 2 powi 1023"
  shows "is_finite (noRevolutions64 (Finite a))"
    and "val64 (noRevolutions64 (Finite a)) = r"
  using noRevolutions64_val [of "Finite a"] assms
  by (simp_all add: below_threshold_big)

lemma tiny_negative:
  "is_finite (noRevolutions64 (Finite (- (1 / 2 ^ 60))))"
  "val64 (noRevolutions64 (Finite (- (1 / 2 ^ 60)))) = 360"
proof -
  have q: "round_nearest (- (1 / 2 ^ 60) / 360) = - (6405119470038039 / 2 ^ 121)"
    by (subst round_nearest_eval [where e = "- 69"]) (simp_all add: rne_def Let_def)
  have p: "round_nearest (360 * of_int \<lfloor>- (6405119470038039 / 2 ^ 121) :: real\<rfloor>) = - 360"
    by (subst round_nearest_eval [where e = 8]) (simp_all add: rne_def Let_def)
  have r: "round_nearest (- (1 / 2 ^ 60) - - 360) = 360"
    by (subst round_nearest_eval [where e = 8]) (simp_all add: rne_def Let_def)
  show "is_finite (noRevolutions64 (Finite (- (1 / 2 ^ 60))))"
    by (rule noRevolutions64_eval(1) [OF q p r]) simp_all
  show "val64 (noRevolutions64 (Finite (- (1 / 2 ^ 60)))) = 360"
    by (rule noRevolutions64_eval(2) [OF q p r]) simp_all
qed

lemma large_negative:
  "is_finite (noRevolutions64 (Finite (- 936748722493063168)))"
  "val64 (noRevolutions64 (Finite (- 936748722493063168))) = - 128"
proof -
  have q: "round_nearest (- 936748722493063168 / 360) = - 2602079784702953"
    by (subst round_nearest_eval [where e = 51]) (simp_all add: rne_def Let_def)
  have p: "round_nearest (360 * of_int \<lfloor>- 2602079784702953 :: real\<rfloor>) = - 936748722493063040"
    by (subst round_nearest_eval [where e = 59]) (simp_all add: rne_def Let_def)
  have r: "round_nearest (- 936748722493063168 - - 936748722493063040) = - 128"
    by (subst round_nearest_eval [where e = 7]) (simp_all add: rne_def Let_def)
  show "is_finite (noRevolutions64 (Finite (- 936748722493063168)))"
    by (rule noRevolutions64_eval(1) [OF q p r]) simp_all
  show "val64 (noRevolutions64 (Finite (- 936748722493063168))) = - 128"
    by (rule noRevolutions64_eval(2) [OF q p r]) simp_all
qed

lemma large_positive:
  "is_finite (noRevolutions64 (Finite 3746994889972252672))"
  "val64 (noRevolutions64 (Finite 3746994889972252672)) = 512"
proof -
  have q: "round_nearest (3746994889972252672 / 360) = 10408319138811812"
    by (subst round_nearest_eval [where e = 53]) (simp_all add: rne_def Let_def)
  have p: "round_nearest (360 * of_int \<lfloor>10408319138811812 :: real\<rfloor>) = 3746994889972252160"
    by (subst round_nearest_eval [where e = 61]) (simp_all add: rne_def Let_def)
  have r: "round_nearest (3746994889972252672 - 3746994889972252160) = 512"
    by (subst round_nearest_eval [where e = 9]) (simp_all add: rne_def Let_def)
  show "is_finite (noRevolutions64 (Finite 3746994889972252672))"
    by (rule noRevolutions64_eval(1) [OF q p r]) simp_all
  show "val64 (noRevolutions64 (Finite 3746994889972252672)) = 512"
    by (rule noRevolutions64_eval(2) [OF q p r]) simp_all
qed

lemma smallest_negative_aux:
  fixes t :: real
  assumes t: "0 < t" "t \<le> 2 powi (- 1074)"
    and grid: "round_nearest t = t"
  shows "noRevolutions64 (Finite (- t)) = Finite (- t)"
proof -
  define m :: real where "m = 2 powi (- 1074)"
  have m: "0 < m" "t \<le> m" using t(2) by (simp_all only: m_def p2_pos)
  have lt: "m < 2 powi (- 1022)" by (simp only: m_def p2_less_iff)
  have "\<bar>- t / 360\<bar> \<le> t" using t(1) by simp
  with m(2) lt have "\<bar>- t / 360\<bar> < 2 powi (- 1022)" by linarith
  then have "expo (- t / 360) = - 1022" by (rule expo_subnormal)
  then have "ulp (- t / 360) = 2 powi (- 1022 - 52)" by (simp only: ulp_def)
  then have u: "ulp (- t / 360) = m" by (simp only: m_def) simp
  define s where "s = - t / 360 / m"
  have "t / m \<le> 1" "0 < t / m" using m t(1) by simp_all
  moreover have "s = - (t / m) / 360" by (simp add: s_def)
  ultimately have s: "- (1 / 2) < s" "s < 0" by simp_all
  have fl: "\<lfloor>s\<rfloor> = - 1" using s by (simp add: floor_eq_iff)
  have "rne s = 0"
    using s by (simp add: rne_def Let_def fl)
  moreover have "round_nearest (- t / 360) = of_int (rne s) * m"
    by (simp only: round_nearest_def u s_def)
  ultimately have q: "round_nearest (- t / 360) = 0" by simp
  have "round64 True (- t / 360) = MinusZero"
    using t(1) overflow_threshold_pos
    by (simp only: round64_def q) (simp add: zero64_def not_le)
  then have d: "Finite (- t) / Finite 360 = MinusZero"
    using t(1) by (simp add: divide_double_def is_infinite_def is_zero_def)
  have ml: "Finite 360 * MinusZero = MinusZero"
    by (simp add: times_double_def is_infinite_def is_zero_def round64_def zero64_def)
  have rn: "round_nearest (- t) = - t"
    using grid by (simp only: round_nearest_minus)
  have "m \<le> 2 powi 53" by (simp only: m_def p2_le_iff)
  then have "t \<le> 2 ^ 53" using m(2) by simp
  then have "\<bar>- t\<bar> < overflow_threshold"
    using t(1) by (intro below_threshold) simp
  then have s: "Finite (- t) - MinusZero = Finite (- t)"
    using t(1)
    by (simp add: minus_double_def uminus_double_def plus_double_def is_infinite_def
        round64_def rn)
  show ?thesis
    by (simp add: noRevolutions64_def Let_def d Math_floor64_def ml s)
qed

lemma smallest_negative:
  "noRevolutions64 (Finite (- (2 powi (- 1074)))) = Finite (- (2 powi (- 1074)))"
proof (rule smallest_negative_aux)
  show "0 < (2::real) powi (- 1074)" by (rule p2_pos)
  show "(2::real) powi (- 1074) \<le> 2 powi (- 1074)" by simp
  show "round_nearest (2 powi (- 1074)) = 2 powi (- 1074)"
  proof (rule round_nearest_multiple [where M = 1 and e = "- 1022"])
    show "(2::real) powi (- 1074) = real_of_int 1 * 2 powi (- 1022 - 52)" by simp
    have "\<bar>(2::real) powi (- 1074)\<bar> < 2 powi (- 1022 + 1)" by (simp only: abs_of_pos p2_pos p2_less_iff)
    then show "expo (2 powi (- 1074)) \<le> - 1022" by (rule expo_le) simp
  qed
qed

section \<open>Conversion and rounding of doubles\<close>

lemma round_nearest_bound:
  assumes "\<bar>x\<bar> \<le> 2 powi e" "- 1022 \<le> e"
  shows "\<bar>round_nearest x\<bar> \<le> 2 powi e"
proof -
  have p: "round_nearest (2 powi e) = 2 powi e" using assms(2) by (rule round_nearest_p2)
  then have m: "round_nearest (- (2 powi e)) = - (2 powi e)" by (simp only: round_nearest_minus)
  have "x \<le> 2 powi e" "- (2 powi e) \<le> x" using assms(1) by linarith+
  then have "round_nearest x \<le> round_nearest (2 powi e)"
    and "round_nearest (- (2 powi e)) \<le> round_nearest x"
    by (simp_all only: round_nearest_mono)
  then show ?thesis by (simp only: p m; linarith)
qed

lemma round_nearest_rel_error:
  assumes "2 powi (- 1022) \<le> \<bar>x\<bar>"
  shows "\<bar>round_nearest x - x\<bar> \<le> \<bar>x\<bar> / 2 ^ 53"
proof -
  have "\<bar>round_nearest x - x\<bar> \<le> ulp x / 2" by (rule round_nearest_error)
  also have "ulp x / 2 = 2 powi (expo x) / 2 ^ 53"
  proof -
    have "ulp x = 2 powi (expo x) / 2 powi 52" by (simp only: ulp_def p2_diff)
    then show ?thesis by simp
  qed
  also have "\<dots> \<le> \<bar>x\<bar> / 2 ^ 53"
    using expo_normal(1) [OF assms] by (simp add: divide_right_mono)
  finally show ?thesis .
qed

lemma Math_PI64_val: "is_finite Math_PI64" "val64 Math_PI64 = 884279719003555 / 2 ^ 48"
  by (simp_all add: Math_PI64_def)

lemma Math_PI64_bounds: "3 < val64 Math_PI64" "val64 Math_PI64 < 4"
  by (simp_all add: Math_PI64_def)

lemma toRadians64_val:
  assumes "is_finite (noRevolutions64 d)"
    and "\<bar>round_nearest (val64 (noRevolutions64 d) * val64 Math_PI64)\<bar> < overflow_threshold"
    and "\<bar>round_nearest (round_nearest (val64 (noRevolutions64 d) * val64 Math_PI64) / 180)\<bar>
         < overflow_threshold"
  shows "is_finite (toRadians64 d)"
    and "val64 (toRadians64 d) =
          round_nearest (round_nearest (val64 (noRevolutions64 d) * val64 Math_PI64) / 180)"
proof -
  let ?t = "noRevolutions64 d * Math_PI64"
  have t: "is_finite ?t" "val64 ?t = round_nearest (val64 (noRevolutions64 d) * val64 Math_PI64)"
    using times_val [of "noRevolutions64 d" Math_PI64] assms(1,2) Math_PI64_val(1) by simp_all
  have r: "is_finite (?t / Finite 180)" "val64 (?t / Finite 180) = round_nearest (val64 ?t / 180)"
    using divide_val [of ?t "Finite 180"] t assms(3) by simp_all
  show "is_finite (toRadians64 d)" using r(1) by (simp add: toRadians64_def)
  show "val64 (toRadians64 d) =
          round_nearest (round_nearest (val64 (noRevolutions64 d) * val64 Math_PI64) / 180)"
    using r(2) t(2) by (simp add: toRadians64_def)
qed

lemma toDegrees64_val:
  assumes "is_finite r"
    and "\<bar>round_nearest (val64 r * 180)\<bar> < overflow_threshold"
    and "\<bar>round_nearest (round_nearest (val64 r * 180) / val64 Math_PI64)\<bar> < overflow_threshold"
  shows "is_finite (toDegrees64 r)"
    and "val64 (toDegrees64 r) = round_nearest (round_nearest (val64 r * 180) / val64 Math_PI64)"
proof -
  let ?t = "r * Finite 180"
  have t: "is_finite ?t" "val64 ?t = round_nearest (val64 r * 180)"
    using times_val [of r "Finite 180"] assms(1,2) by simp_all
  have nz: "val64 Math_PI64 \<noteq> 0" using Math_PI64_bounds by simp
  have q: "is_finite (?t / Math_PI64)"
      "val64 (?t / Math_PI64) = round_nearest (val64 ?t / val64 Math_PI64)"
    using divide_val [of ?t Math_PI64] t assms(3) Math_PI64_val(1) nz by simp_all
  show "is_finite (toDegrees64 r)" using q(1) by (simp add: toDegrees64_def)
  show "val64 (toDegrees64 r) = round_nearest (round_nearest (val64 r * 180) / val64 Math_PI64)"
    using q(2) t(2) by (simp add: toDegrees64_def)
qed



text \<open>
  The two roundings of \<open>toRadians64\<close> at 360 and at 180 degrees: the product with
  \<^verbatim>\<open>Math.PI\<close> and the quotient by 180.
\<close>

lemma full_turn_product:
  "round_nearest (360 * (884279719003555 / 2 ^ 48)) = 4974073419394997 / 2 ^ 42"
  by (subst round_nearest_eval [where e = 10]) (simp_all add: rne_def Let_def)

lemma full_turn_quotient:
  "round_nearest (4974073419394997 / 2 ^ 42 / 180) = 2 * (884279719003555 / 2 ^ 48)"
  by (subst round_nearest_eval [where e = 2]) (simp_all add: rne_def Let_def)

lemma half_turn_product:
  "round_nearest (180 * (884279719003555 / 2 ^ 48)) = 4974073419394997 / 2 ^ 43"
  by (subst round_nearest_eval [where e = 9]) (simp_all add: rne_def Let_def)

lemma half_turn_quotient:
  "round_nearest (4974073419394997 / 2 ^ 43 / 180) = 884279719003555 / 2 ^ 48"
  by (subst round_nearest_eval [where e = 1]) (simp_all add: rne_def Let_def)

lemma toRadians64_range:
  assumes fin: "is_finite (noRevolutions64 d)"
    and lo: "0 \<le> val64 (noRevolutions64 d)"
    and hi: "val64 (noRevolutions64 d) \<le> 360"
  shows "is_finite (toRadians64 d)"
    and "val64 (toRadians64 d) =
          round_nearest (round_nearest (val64 (noRevolutions64 d) * val64 Math_PI64) / 180)"
    and "0 \<le> val64 (toRadians64 d)"
    and "val64 (toRadians64 d) \<le> 2 * val64 Math_PI64"
proof -
  define v where "v = val64 (noRevolutions64 d)"
  define P where "P = val64 Math_PI64"
  have P: "P = 884279719003555 / 2 ^ 48" by (simp add: P_def Math_PI64_val)
  have Ppos: "0 < P" using Math_PI64_bounds by (simp add: P_def)
  define t where "t = round_nearest (v * P)"
  have "0 \<le> v * P" using lo Ppos by (simp add: v_def)
  then have t0: "0 \<le> t" unfolding t_def by (rule round_nearest_nonneg)
  have "v * P \<le> 360 * P" using hi Ppos by (simp add: v_def)
  then have "t \<le> round_nearest (360 * P)" unfolding t_def by (rule round_nearest_mono)
  then have t1: "t \<le> 4974073419394997 / 2 ^ 42" by (simp only: P full_turn_product)
  then have "\<bar>t\<bar> \<le> 2 ^ 53" using t0 by simp
  then have c1: "\<bar>t\<bar> < overflow_threshold" by (rule below_threshold)
  define u where "u = round_nearest (t / 180)"
  have "0 \<le> t / 180" using t0 by simp
  then have u0: "0 \<le> u" unfolding u_def by (rule round_nearest_nonneg)
  have "t / 180 \<le> 4974073419394997 / 2 ^ 42 / 180" using t1 by simp
  then have "u \<le> round_nearest (4974073419394997 / 2 ^ 42 / 180)"
    unfolding u_def by (rule round_nearest_mono)
  then have u1: "u \<le> 2 * P" by (simp only: P full_turn_quotient)
  then have "\<bar>u\<bar> \<le> 2 ^ 53" using u0 by (simp add: P)
  then have c2: "\<bar>u\<bar> < overflow_threshold" by (rule below_threshold)
  have r: "is_finite (toRadians64 d) \<and> val64 (toRadians64 d) = u"
    using toRadians64_val [of d] fin c1 c2 by (simp add: t_def u_def v_def P_def)
  then show "is_finite (toRadians64 d)" by simp
  from r show "val64 (toRadians64 d) =
          round_nearest (round_nearest (val64 (noRevolutions64 d) * val64 Math_PI64) / 180)"
    by (simp add: t_def u_def v_def P_def)
  from r u0 show "0 \<le> val64 (toRadians64 d)" by simp
  from r u1 show "val64 (toRadians64 d) \<le> 2 * val64 Math_PI64" by (simp add: P_def)
qed

lemma toRadians64_eval:
  assumes "is_finite (noRevolutions64 d)" "val64 (noRevolutions64 d) = v"
    and "round_nearest (v * (884279719003555 / 2 ^ 48)) = t"
    and "round_nearest (t / 180) = u"
    and "\<bar>t\<bar> \<le> 2 powi 1023" "\<bar>u\<bar> \<le> 2 powi 1023"
  shows "is_finite (toRadians64 d)"
    and "val64 (toRadians64 d) = u"
  using toRadians64_val [of d] assms
  by (simp_all add: below_threshold_big Math_PI64_val)

lemma toRadians64_360:
  "is_finite (toRadians64 (Finite 360))" "val64 (toRadians64 (Finite 360)) = 0"
proof -
  have "\<bar>360::int\<bar> \<le> 2 ^ 52" by simp
  from noRevolutions64_int [OF _ _ this, of "Finite 360"]
  have n: "is_finite (noRevolutions64 (Finite 360))" "val64 (noRevolutions64 (Finite 360)) = 0"
    by simp_all
  have t: "round_nearest (0 * (884279719003555 / 2 ^ 48)) = 0" by (simp add: round_nearest_0)
  have u: "round_nearest (0 / 180) = 0" by (simp add: round_nearest_0)
  show "is_finite (toRadians64 (Finite 360))"
    by (rule toRadians64_eval(1) [OF n t u]) simp_all
  show "val64 (toRadians64 (Finite 360)) = 0"
    by (rule toRadians64_eval(2) [OF n t u]) simp_all
qed

lemma toRadians64_180:
  "is_finite (toRadians64 (Finite 180))"
  "val64 (toRadians64 (Finite 180)) = 884279719003555 / 2 ^ 48"
proof -
  have "\<bar>180::int\<bar> \<le> 2 ^ 52" by simp
  from noRevolutions64_int [OF _ _ this, of "Finite 180"]
  have n: "is_finite (noRevolutions64 (Finite 180))" "val64 (noRevolutions64 (Finite 180)) = 180"
    by simp_all
  show "is_finite (toRadians64 (Finite 180))"
    by (rule toRadians64_eval(1) [OF n half_turn_product half_turn_quotient]) simp_all
  show "val64 (toRadians64 (Finite 180)) = 884279719003555 / 2 ^ 48"
    by (rule toRadians64_eval(2) [OF n half_turn_product half_turn_quotient]) simp_all
qed

lemma toRadians64_tiny_negative:
  "is_finite (toRadians64 (Finite (- (1 / 2 ^ 60))))"
  "val64 (toRadians64 (Finite (- (1 / 2 ^ 60)))) = 2 * (884279719003555 / 2 ^ 48)"
proof -
  show "is_finite (toRadians64 (Finite (- (1 / 2 ^ 60))))"
    by (rule toRadians64_eval(1) [OF tiny_negative full_turn_product full_turn_quotient])
      simp_all
  show "val64 (toRadians64 (Finite (- (1 / 2 ^ 60)))) = 2 * (884279719003555 / 2 ^ 48)"
    by (rule toRadians64_eval(2) [OF tiny_negative full_turn_product full_turn_quotient])
      simp_all
qed

lemma toRadians64_large_negative:
  "is_finite (toRadians64 (Finite (- 936748722493063168)))"
  "val64 (toRadians64 (Finite (- 936748722493063168))) = - (5030569068109113 / 2 ^ 51)"
proof -
  have t: "round_nearest (- 128 * (884279719003555 / 2 ^ 48)) = - (884279719003555 / 2 ^ 41)"
    by (subst round_nearest_eval [where e = 8]) (simp_all add: rne_def Let_def)
  have u: "round_nearest (- (884279719003555 / 2 ^ 41) / 180) = - (5030569068109113 / 2 ^ 51)"
    by (subst round_nearest_eval [where e = 1]) (simp_all add: rne_def Let_def)
  show "is_finite (toRadians64 (Finite (- 936748722493063168)))"
    by (rule toRadians64_eval(1) [OF large_negative t u]) simp_all
  show "val64 (toRadians64 (Finite (- 936748722493063168))) = - (5030569068109113 / 2 ^ 51)"
    by (rule toRadians64_eval(2) [OF large_negative t u]) simp_all
qed

lemma toDegrees64_finite:
  assumes fin: "is_finite r" and hi: "\<bar>val64 r\<bar> \<le> 2 powi 1000"
  shows "is_finite (toDegrees64 r)"
    and "val64 (toDegrees64 r) = round_nearest (round_nearest (val64 r * 180) / val64 Math_PI64)"
proof -
  define P where "P = val64 Math_PI64"
  have P: "1 \<le> P" using Math_PI64_bounds by (simp add: P_def)
  define t where "t = round_nearest (val64 r * 180)"
  have "(2::real) powi 1008 = 2 powi 1000 * 2 powi 8" by (simp only: p2_add [symmetric]) simp
  then have e: "(2::real) powi 1008 = 2 powi 1000 * 256" by simp
  have "\<bar>val64 r * 180\<bar> = \<bar>val64 r\<bar> * 180" by (simp add: abs_mult)
  also have "\<dots> \<le> 2 powi 1000 * 256" using hi p2_pos [of 1000]
    by (intro mult_mono) simp_all
  finally have "\<bar>val64 r * 180\<bar> \<le> 2 powi 1008" by (simp only: e)
  then have tb: "\<bar>t\<bar> \<le> 2 powi 1008" unfolding t_def by (rule round_nearest_bound) simp
  have big: "(2::real) powi 1008 \<le> 2 powi 1023" by (simp only: p2_le_iff)
  have c1: "\<bar>t\<bar> < overflow_threshold" using tb big by (intro below_threshold_big) linarith
  have "\<bar>t / P\<bar> = \<bar>t\<bar> / P" using P by simp
  also have "\<dots> \<le> \<bar>t\<bar>"
    using P mult_right_mono [of 1 P "\<bar>t\<bar>"] by (simp add: field_simps)
  finally have "\<bar>t / P\<bar> \<le> 2 powi 1008" using tb by linarith
  then have "\<bar>round_nearest (t / P)\<bar> \<le> 2 powi 1008" by (rule round_nearest_bound) simp
  then have c2: "\<bar>round_nearest (t / P)\<bar> < overflow_threshold"
    using big by (intro below_threshold_big) linarith
  show "is_finite (toDegrees64 r)"
    using toDegrees64_val(1) [of r] fin c1 c2 by (simp add: t_def P_def)
  show "val64 (toDegrees64 r) = round_nearest (round_nearest (val64 r * 180) / val64 Math_PI64)"
    using toDegrees64_val(2) [of r] fin c1 c2 by (simp add: t_def P_def)
qed

lemma toDegrees64_error:
  assumes fin: "is_finite r"
    and lo: "2 powi (- 1000) \<le> \<bar>val64 r\<bar>"
    and hi: "\<bar>val64 r\<bar> \<le> 2 powi 1000"
  shows "\<bar>val64 (toDegrees64 r) - val64 r * 180 / val64 Math_PI64\<bar>
         \<le> \<bar>val64 r * 180 / val64 Math_PI64\<bar> / 2 ^ 51"
proof -
  define P where "P = val64 Math_PI64"
  have P: "1 \<le> P" "P \<le> 4" using Math_PI64_bounds by (simp_all add: P_def)
  define x where "x = val64 r * 180"
  define t where "t = round_nearest x"
  define E where "E = x / P"
  define y where "y = t / P"
  define u where "u = round_nearest y"
  have v: "val64 (toDegrees64 r) = u"
    using toDegrees64_finite(2) [OF fin hi] by (simp add: u_def y_def t_def x_def P_def)
  define c :: real where "c = 2 powi (- 1000)"
  have c: "0 < c" "2 powi (- 1022) \<le> c" by (simp_all only: c_def p2_pos p2_le_iff)
  have lo': "c \<le> \<bar>val64 r\<bar>" using lo by (simp only: c_def)
  have xabs: "\<bar>x\<bar> = \<bar>val64 r\<bar> * 180" by (simp add: x_def abs_mult)
  have xlo: "c * 180 \<le> \<bar>x\<bar>" using lo' by (simp add: xabs)
  have "2 powi (- 1022) \<le> \<bar>x\<bar>" using xlo c by linarith
  then have tx: "\<bar>t - x\<bar> \<le> \<bar>x\<bar> / 2 ^ 53" unfolding t_def by (rule round_nearest_rel_error)
  have "y - E = (t - x) / P" by (simp add: y_def E_def diff_divide_distrib)
  then have "\<bar>y - E\<bar> = \<bar>t - x\<bar> / P" using P by simp
  also have "\<dots> \<le> \<bar>x\<bar> / 2 ^ 53 / P"
    using P by (intro divide_right_mono tx) simp
  also have "\<dots> = \<bar>E\<bar> / 2 ^ 53" using P by (simp add: E_def)
  finally have yE: "\<bar>y - E\<bar> \<le> \<bar>E\<bar> / 2 ^ 53" .
  have Eabs: "\<bar>E\<bar> = \<bar>x\<bar> / P" using P by (simp add: E_def)
  have "\<bar>x\<bar> / 4 \<le> \<bar>x\<bar> / P" using P by (intro divide_left_mono) simp_all
  then have "\<bar>x\<bar> / 4 \<le> \<bar>E\<bar>" by (simp only: Eabs)
  then have Elo: "c * 45 \<le> \<bar>E\<bar>" using xlo by linarith
  have "\<bar>E\<bar> / 2 ^ 53 \<le> \<bar>E\<bar> / 2" by (intro divide_left_mono) simp_all
  then have "\<bar>E\<bar> / 2 \<le> \<bar>y\<bar>" using yE by linarith
  then have "2 powi (- 1022) \<le> \<bar>y\<bar>" using Elo c by linarith
  then have uy: "\<bar>u - y\<bar> \<le> \<bar>y\<bar> / 2 ^ 53" unfolding u_def by (rule round_nearest_rel_error)
  have "\<bar>y\<bar> \<le> \<bar>E\<bar> + \<bar>E\<bar> / 2 ^ 53" using yE by linarith
  also have "\<dots> \<le> 2 * \<bar>E\<bar>" by simp
  finally have "\<bar>y\<bar> / 2 ^ 53 \<le> 2 * \<bar>E\<bar> / 2 ^ 53" by (simp add: divide_right_mono)
  with uy have "\<bar>u - y\<bar> \<le> 2 * \<bar>E\<bar> / 2 ^ 53" by linarith
  with yE have "\<bar>u - E\<bar> \<le> 3 * \<bar>E\<bar> / 2 ^ 53" by linarith
  also have "\<dots> \<le> \<bar>E\<bar> / 2 ^ 51" by simp
  finally show ?thesis by (simp only: v E_def x_def P_def)
qed

lemma toDegrees64_eval:
  assumes "is_finite r" "val64 r = a"
    and "round_nearest (a * 180) = t"
    and "round_nearest (t / (884279719003555 / 2 ^ 48)) = u"
    and "\<bar>t\<bar> \<le> 2 powi 1023" "\<bar>u\<bar> \<le> 2 powi 1023"
  shows "is_finite (toDegrees64 r)"
    and "val64 (toDegrees64 r) = u"
  using toDegrees64_val [of r] assms
  by (simp_all add: below_threshold_big Math_PI64_val)

lemma two_pi:
  "is_finite (Finite 2 * Math_PI64)" "val64 (Finite 2 * Math_PI64) = 2 * (884279719003555 / 2 ^ 48)"
proof -
  have rn: "round_nearest (2 * (884279719003555 / 2 ^ 48)) = 2 * (884279719003555 / 2 ^ 48)"
    by (subst round_nearest_eval [where e = 2]) (simp_all add: rne_def Let_def)
  have "\<bar>2 * (884279719003555 / 2 ^ 48) :: real\<bar> \<le> 2 ^ 53" by simp
  then have b: "\<bar>2 * (884279719003555 / 2 ^ 48) :: real\<bar> < overflow_threshold"
    by (rule below_threshold)
  show "is_finite (Finite 2 * Math_PI64)"
    using times_val(1) [of "Finite 2" Math_PI64] b by (simp only: Math_PI64_val val64.simps is_finite.simps rn)
  show "val64 (Finite 2 * Math_PI64) = 2 * (884279719003555 / 2 ^ 48)"
    using times_val(2) [of "Finite 2" Math_PI64] b by (simp only: Math_PI64_val val64.simps is_finite.simps rn)
qed

lemma toDegrees64_two_pi:
  "is_finite (toDegrees64 (Finite 2 * Math_PI64))"
  "val64 (toDegrees64 (Finite 2 * Math_PI64)) = 360"
proof -
  have t: "round_nearest (2 * (884279719003555 / 2 ^ 48) * 180) = 4974073419394997 / 2 ^ 42"
    by (subst round_nearest_eval [where e = 10]) (simp_all add: rne_def Let_def)
  have u: "round_nearest (4974073419394997 / 2 ^ 42 / (884279719003555 / 2 ^ 48)) = 360"
    by (subst round_nearest_eval [where e = 8]) (simp_all add: rne_def Let_def)
  show "is_finite (toDegrees64 (Finite 2 * Math_PI64))"
    by (rule toDegrees64_eval(1) [OF two_pi t u]) simp_all
  show "val64 (toDegrees64 (Finite 2 * Math_PI64)) = 360"
    by (rule toDegrees64_eval(2) [OF two_pi t u]) simp_all
qed

lemma toDegrees64_minus_pi:
  "is_finite (toDegrees64 (- Math_PI64))"
  "val64 (toDegrees64 (- Math_PI64)) = - 180"
proof -
  have m: "is_finite (- Math_PI64)" "val64 (- Math_PI64) = - (884279719003555 / 2 ^ 48)"
    by (simp_all add: uminus_val Math_PI64_val)
  have t: "round_nearest (- (884279719003555 / 2 ^ 48) * 180) = - (4974073419394997 / 2 ^ 43)"
    by (subst round_nearest_eval [where e = 9]) (simp_all add: rne_def Let_def)
  have u: "round_nearest (- (4974073419394997 / 2 ^ 43) / (884279719003555 / 2 ^ 48)) = - 180"
    by (subst round_nearest_eval [where e = 7]) (simp_all add: rne_def Let_def)
  show "is_finite (toDegrees64 (- Math_PI64))"
    by (rule toDegrees64_eval(1) [OF m t u]) simp_all
  show "val64 (toDegrees64 (- Math_PI64)) = - 180"
    by (rule toDegrees64_eval(2) [OF m t u]) simp_all
qed

lemma toDegrees64_overflow_aux:
  assumes "0 < a" "round_nearest (a * 180) = t" "overflow_threshold \<le> \<bar>t\<bar>"
  shows "toDegrees64 (Finite a) = Infinite False"
proof -
  have "Finite a * Finite 180 = Infinite False"
    using assms by (simp add: times_double_def is_infinite_def round64_def)
  then show ?thesis
    by (simp add: toDegrees64_def divide_double_def is_infinite_def Math_PI64_def)
qed

lemma toDegrees64_overflow: "toDegrees64 (Finite (2 ^ 1017)) = Infinite False"
proof (rule toDegrees64_overflow_aux)
  show "0 < (2::real) ^ 1017" by simp
  show "round_nearest (2 ^ 1017 * 180) = 2 ^ 1017 * 180"
    by (subst round_nearest_eval [where e = 1024]) (simp_all add: rne_def Let_def)
  show "overflow_threshold \<le> \<bar>2 ^ 1017 * 180\<bar>"
    by (simp add: overflow_threshold_def)
qed

lemma is_double_2_1017: "is_double (2 ^ 1017)"
proof -
  have "round_nearest (2 powi 1017) = 2 powi 1017" by (rule round_nearest_p2) simp
  then have "round_nearest (2 ^ 1017) = 2 ^ 1017" by simp
  moreover have "\<bar>(2::real) ^ 1017\<bar> < overflow_threshold"
    by (simp add: overflow_threshold_def)
  ultimately show ?thesis by (simp only: is_double_def)
qed

section \<open>Whole revolutions\<close>

lemma noRevolutions64_add_revolutions:
  assumes fin: "is_finite d"
    and dbl: "is_double (val64 d)"
    and hi: "\<bar>val64 d\<bar> \<le> 2 ^ 52"
    and lo: "0 \<le> val64 d \<or> val64 d \<le> - (2 powi (- 1000))"
    and dbl': "is_double (val64 d + 360 * of_int k)"
    and hi': "\<bar>val64 d + 360 * of_int k\<bar> \<le> 2 ^ 52"
    and lo': "0 \<le> val64 d + 360 * of_int k \<or> val64 d + 360 * of_int k \<le> - (2 powi (- 1000))"
  shows "js_eq64 (noRevolutions64 (d + Finite 360 * Finite (of_int k))) (noRevolutions64 d)"
proof -
  have "(2::real) ^ 53 = 2 * 2 ^ 52" by simp
  then have "\<bar>360 * real_of_int k\<bar> \<le> 2 ^ 53" using hi hi' by linarith
  then have "\<bar>real_of_int (360 * k)\<bar> \<le> real_of_int (2 ^ 53)" by simp
  then have le: "\<bar>360 * k\<bar> \<le> 2 ^ 53"
    by (simp only: of_int_abs [symmetric] of_int_le_iff)
  have "(5::int) dvd 360 * k" by (rule dvd_mult2) simp
  then have d5: "(5::int) dvd \<bar>360 * k\<bar>" by simp
  have nd: "\<not> (5::int) dvd 2 ^ 53" by simp
  have "\<bar>360 * k\<bar> \<noteq> 2 ^ 53"
  proof
    assume e: "\<bar>360 * k\<bar> = 2 ^ 53"
    from d5 have "(5::int) dvd 2 ^ 53" by (simp only: e)
    with nd show False by (rule notE)
  qed
  with le have lt: "\<bar>360 * k\<bar> < 2 ^ 53" by linarith
  then have "round_nearest (real_of_int (360 * k)) = real_of_int (360 * k)"
    by (rule round_nearest_of_int)
  then have rp: "round_nearest (360 * real_of_int k) = 360 * real_of_int k" by simp
  have "\<bar>real_of_int (360 * k)\<bar> \<le> 2 ^ 53"
    using le by (metis of_int_abs of_int_le_numeral_power_cancel_iff)
  then have "\<bar>360 * real_of_int k\<bar> < overflow_threshold"
    by (intro below_threshold) simp
  then have bp: "\<bar>round_nearest (360 * real_of_int k)\<bar> < overflow_threshold"
    by (simp only: rp)
  let ?p = "Finite 360 * Finite (of_int k)"
  have p: "is_finite ?p" "val64 ?p = 360 * of_int k"
    using times_val [of "Finite 360" "Finite (of_int k)"] bp rp by simp_all
  have rs: "round_nearest (val64 d + 360 * of_int k) = val64 d + 360 * of_int k"
    using dbl' by (simp add: is_double_def)
  have "\<bar>val64 d + 360 * of_int k\<bar> < overflow_threshold"
    using dbl' by (simp add: is_double_def)
  then have bs: "\<bar>round_nearest (val64 d + 360 * of_int k)\<bar> < overflow_threshold"
    by (simp only: rs)
  let ?s = "d + ?p"
  have s: "is_finite ?s" "val64 ?s = val64 d + 360 * of_int k"
    using plus_val [of d ?p] fin p bs rs by simp_all
  show ?thesis
  proof (rule noRevolutions64_shift [where k = k])
    show "is_finite d" by (rule fin)
    show "is_double (val64 d)" by (rule dbl)
    show "\<bar>val64 d\<bar> \<le> 2 ^ 52" by (rule hi)
    show "0 \<le> val64 d \<or> val64 d \<le> - (2 powi (- 1000))" by (rule lo)
    show "is_finite ?s" by (rule s)
    show "is_double (val64 ?s)" using dbl' by (simp only: s)
    show "\<bar>val64 ?s\<bar> \<le> 2 ^ 52" using hi' by (simp only: s)
    show "0 \<le> val64 ?s \<or> val64 ?s \<le> - (2 powi (- 1000))" using lo' by (simp only: s)
    show "val64 ?s = val64 d + 360 * of_int k" by (rule s)
  qed
qed

lemma noRevolutions64_twice:
  assumes fin: "is_finite d"
    and dbl: "is_double (val64 d)"
    and hi: "\<bar>val64 d\<bar> \<le> 2 ^ 52"
    and lo: "0 \<le> val64 d \<or> val64 d \<le> - (2 powi (- 1000))"
  shows "is_finite (noRevolutions64 (noRevolutions64 d))"
    and "val64 (noRevolutions64 (noRevolutions64 d)) =
          (if val64 (noRevolutions64 d) < 360 then val64 (noRevolutions64 d) else 0)"
    and "0 \<le> val64 (noRevolutions64 (noRevolutions64 d))"
    and "val64 (noRevolutions64 (noRevolutions64 d)) < 360"
    and "is_double (val64 (noRevolutions64 (noRevolutions64 d)))"
proof -
  let ?n = "noRevolutions64 d"
  have f1: "is_finite ?n" using assms by (rule noRevolutions64_rounded_formula)
  have r1: "0 \<le> val64 ?n" "val64 ?n \<le> 360" "is_double (val64 ?n)"
    using assms by (rule noRevolutions64_result)+
  have c: "is_finite (noRevolutions64 ?n) \<and>
        val64 (noRevolutions64 ?n) = (if val64 ?n < 360 then val64 ?n else 0)"
  proof (cases "val64 ?n < 360")
    case True
    then show ?thesis
      using noRevolutions64_fixed [OF f1 r1(3) r1(1)] by simp
  next
    case False
    then have "val64 ?n = real_of_int 360" using r1(2) by simp
    from noRevolutions64_int [OF f1 this] False show ?thesis by simp
  qed
  then show "is_finite (noRevolutions64 ?n)" by simp
  from c show v: "val64 (noRevolutions64 ?n) = (if val64 ?n < 360 then val64 ?n else 0)" by simp
  show "0 \<le> val64 (noRevolutions64 ?n)" using r1(1) by (simp add: v)
  show "val64 (noRevolutions64 ?n) < 360" by (simp add: v)
  show "is_double (val64 (noRevolutions64 ?n))" using r1(3) by (simp add: v is_double_0)
qed












lemma round_nearest_error_below_512:
  assumes "\<bar>x\<bar> < 512"
  shows "\<bar>round_nearest x - x\<bar> \<le> 1 / 2 ^ 45"
proof -
  have "(2::real) powi (8 + 1) = 512" by simp
  then have "\<bar>x\<bar> < 2 powi (8 + 1)" using assms by (simp only:)
  then have "expo x \<le> 8" by (rule expo_le) simp
  then have "expo x - 52 \<le> - 44" by simp
  then have "(2::real) powi (expo x - 52) \<le> 2 powi (- 44)" by (simp only: p2_le_iff)
  then have "ulp x \<le> 1 / 2 ^ 44" by (simp add: ulp_def power_int_minus inverse_eq_divide)
  moreover have "\<bar>round_nearest x - x\<bar> \<le> ulp x / 2" by (rule round_nearest_error)
  ultimately show ?thesis by simp
qed

section \<open>The claims on normalization\<close>

text \<open>
  Claim C3, as stated: for every finite \<open>a\<close>, \<open>noRevolutions a\<close> equals
  \<open>a - 360 * \<lfloor>a / 360\<rfloor>\<close> and lies in the half-open interval from 0 to 360. On doubles
  it does not. For \<open>a = - 2 ^ (- 60)\<close> the floor of the quotient is \<open>- 1\<close> and the sum
  \<open>a + 360\<close> rounds to 360: the result is 360, which is not below 360 and is not the
  remainder \<open>360 - 2 ^ (- 60)\<close>. For the double \<open>- 13 * 2 ^ 56\<close> the product
  \<^verbatim>\<open>360 * revolutions\<close> is rounded and the result is \<open>- 128\<close>; for \<open>13 * 2 ^ 58\<close> it is 512.
  For the negative double nearest to zero, \<open>- 2 ^ (- 1074)\<close>, the quotient underflows to
  the negative zero and the result is the argument, a negative number.
\<close>

theorem noRevolutions64_outside_range:
  "val64 (noRevolutions64 (Finite (- (1 / 2 ^ 60)))) = 360
   \<and> \<not> val64 (noRevolutions64 (Finite (- (1 / 2 ^ 60)))) < 360
   \<and> val64 (noRevolutions64 (Finite (- (1 / 2 ^ 60))))
       \<noteq> - (1 / 2 ^ 60) - 360 * of_int \<lfloor>- (1 / 2 ^ 60) / 360 :: real\<rfloor>
   \<and> val64 (noRevolutions64 (Finite (- 936748722493063168))) = - 128
   \<and> val64 (noRevolutions64 (Finite 3746994889972252672)) = 512
   \<and> noRevolutions64 (Finite (- (2 powi (- 1074)))) = Finite (- (2 powi (- 1074)))"
proof -
  have "\<lfloor>- (1 / 2 ^ 60) / 360 :: real\<rfloor> = - 1" by (simp add: floor_eq_iff)
  then have "- (1 / 2 ^ 60) - 360 * of_int \<lfloor>- (1 / 2 ^ 60) / 360 :: real\<rfloor> \<noteq> (360 :: real)"
    by simp
  then show ?thesis
    by (simp only: tiny_negative large_negative large_positive smallest_negative) simp
qed

text \<open>
  Claim C3, amended. For every double \<open>a\<close> of magnitude at most \<open>2 ^ 52\<close> that is not a
  negative number above \<open>- 2 ^ (- 1000)\<close>, \<open>noRevolutions a\<close> is
  \<^verbatim>\<open>a - 360 * Math.floor(a / 360)\<close>, with one floor division, and its value is the
  remainder \<open>a - 360 * \<lfloor>a / 360\<rfloor>\<close> rounded to the nearest double: it is within
  \<open>2 ^ (- 45)\<close> of the remainder and lies in the closed interval from 0 to 360. For an
  integer \<open>a\<close> it is \<open>a mod 360\<close>. \<open>noRevolutions (- 10) == 350\<close> and
  \<open>noRevolutions 360 == 0\<close>.
\<close>

theorem noRevolutions64_rounded_remainder:
  assumes "is_finite a" "is_double (val64 a)" "\<bar>val64 a\<bar> \<le> 2 ^ 52"
    and "0 \<le> val64 a \<or> val64 a \<le> - (2 powi (- 1000))"
  shows "noRevolutions64 a = a - Finite 360 * Math_floor64 (a / Finite 360)
   \<and> is_finite (noRevolutions64 a)
   \<and> val64 (noRevolutions64 a) = round_nearest (val64 a - 360 * of_int \<lfloor>val64 a / 360\<rfloor>)
   \<and> \<bar>val64 (noRevolutions64 a) - (val64 a - 360 * of_int \<lfloor>val64 a / 360\<rfloor>)\<bar> \<le> 1 / 2 ^ 45
   \<and> 0 \<le> val64 (noRevolutions64 a) \<and> val64 (noRevolutions64 a) \<le> 360
   \<and> (\<forall>k. val64 a = of_int k \<longrightarrow> val64 (noRevolutions64 a) = of_int (k mod 360))
   \<and> js_eq64 (noRevolutions64 (Finite (- 10))) (Finite 350)
   \<and> js_eq64 (noRevolutions64 (Finite 360)) (Finite 0)"
proof -
  have d: "noRevolutions64 a = a - Finite 360 * Math_floor64 (a / Finite 360)"
    by (simp add: noRevolutions64_def Let_def)
  have f: "is_finite (noRevolutions64 a)"
    and v: "val64 (noRevolutions64 a) = round_nearest (val64 a - 360 * of_int \<lfloor>val64 a / 360\<rfloor>)"
    using assms by (rule noRevolutions64_rounded_formula)+
  have rem: "0 \<le> val64 a - 360 * of_int \<lfloor>val64 a / 360\<rfloor>"
    "val64 a - 360 * of_int \<lfloor>val64 a / 360\<rfloor> < 360"
    by (rule floor_remainder)+
  then have "\<bar>val64 a - 360 * of_int \<lfloor>val64 a / 360\<rfloor>\<bar> < 512" by simp
  then have e: "\<bar>val64 (noRevolutions64 a) - (val64 a - 360 * of_int \<lfloor>val64 a / 360\<rfloor>)\<bar>
                \<le> 1 / 2 ^ 45"
    unfolding v by (rule round_nearest_error_below_512)
  have r: "0 \<le> val64 (noRevolutions64 a)" "val64 (noRevolutions64 a) \<le> 360"
    using assms by (rule noRevolutions64_result)+
  have i: "\<forall>k. val64 a = of_int k \<longrightarrow> val64 (noRevolutions64 a) = of_int (k mod 360)"
  proof (intro allI impI)
    fix k :: int
    assume k: "val64 a = of_int k"
    have "\<bar>real_of_int k\<bar> \<le> real_of_int (2 ^ 52)" using assms(3) by (simp add: k)
    then have "\<bar>k\<bar> \<le> 2 ^ 52" by (simp only: of_int_abs [symmetric] of_int_le_iff)
    with assms(1) k show "val64 (noRevolutions64 a) = of_int (k mod 360)"
      by (rule noRevolutions64_int)
  qed
  have m: "is_finite (noRevolutions64 (Finite (- 10)))"
    "val64 (noRevolutions64 (Finite (- 10))) = 350"
    using noRevolutions64_int [of "Finite (- 10)" "- 10"] by simp_all
  have z: "is_finite (noRevolutions64 (Finite 360))"
    "val64 (noRevolutions64 (Finite 360)) = 0"
    using noRevolutions64_int [of "Finite 360" 360] by simp_all
  have j1: "js_eq64 (noRevolutions64 (Finite (- 10))) (Finite 350)"
    using m by (simp add: js_eq64_finite)
  have j2: "js_eq64 (noRevolutions64 (Finite 360)) (Finite 0)"
    using z by (simp add: js_eq64_finite)
  from d f v e r i j1 j2 show ?thesis by (intro conjI)
qed

lemma is_double_minus_10: "is_double (- 10)"
  using is_double_of_int [of "- 10"] by simp

text \<open>The hypotheses hold at \<open>- 10\<close>, where the result is 350.\<close>

theorem noRevolutions64_rounded_remainder_witness:
  "is_finite (Finite (- 10)) \<and> is_double (val64 (Finite (- 10)))
   \<and> \<bar>val64 (Finite (- 10))\<bar> \<le> 2 ^ 52
   \<and> (0 \<le> val64 (Finite (- 10)) \<or> val64 (Finite (- 10)) \<le> - (2 powi (- 1000)))
   \<and> is_finite (noRevolutions64 (Finite (- 10)))
   \<and> val64 (noRevolutions64 (Finite (- 10))) = 350"
proof -
  have h1: "is_finite (Finite (- 10))" by simp
  have h2: "is_double (val64 (Finite (- 10)))" by (simp add: is_double_minus_10)
  have h3: "\<bar>val64 (Finite (- 10))\<bar> \<le> 2 ^ 52" by simp
  have "(2::real) powi (- 1000) \<le> 2 powi 0" by (simp only: p2_le_iff)
  then have h4: "0 \<le> val64 (Finite (- 10)) \<or> val64 (Finite (- 10)) \<le> - (2 powi (- 1000))"
    by simp
  have k: "val64 (Finite (- 10)) = real_of_int (- 10)" by simp
  from noRevolutions64_rounded_remainder [OF h1 h2 h3 h4]
  have "is_finite (noRevolutions64 (Finite (- 10)))"
    and "\<forall>k. val64 (Finite (- 10)) = real_of_int k
           \<longrightarrow> val64 (noRevolutions64 (Finite (- 10))) = real_of_int (k mod 360)"
    by blast+
  with k have "is_finite (noRevolutions64 (Finite (- 10)))"
    and "val64 (noRevolutions64 (Finite (- 10))) = real_of_int (- 10 mod 360)"
    by blast+
  then have "is_finite (noRevolutions64 (Finite (- 10)))"
    and "val64 (noRevolutions64 (Finite (- 10))) = 350"
    by simp_all
  with h1 h2 h3 h4 show ?thesis by (intro conjI)
qed

text \<open>
  The double \<open>2 ^ (- 60)\<close> is normalized already; its sum with 360 is rounded to 360.
\<close>

lemma small_positive:
  "is_finite (noRevolutions64 (Finite (1 / 2 ^ 60)))"
  "val64 (noRevolutions64 (Finite (1 / 2 ^ 60))) = 1 / 2 ^ 60"
proof -
  have "round_nearest (2 powi (- 60)) = 2 powi (- 60)" by (rule round_nearest_p2) simp
  then have g: "round_nearest (1 / 2 ^ 60) = 1 / 2 ^ 60"
    by (simp add: power_int_minus inverse_eq_divide)
  have "\<bar>1 / 2 ^ 60 :: real\<bar> \<le> 2 ^ 53" by simp
  with g have dbl: "is_double (val64 (Finite (1 / 2 ^ 60)))"
    unfolding val64.simps by (rule is_double_bounded)
  show "is_finite (noRevolutions64 (Finite (1 / 2 ^ 60)))"
    by (rule noRevolutions64_fixed(1) [OF _ dbl]) simp_all
  have "val64 (noRevolutions64 (Finite (1 / 2 ^ 60))) = val64 (Finite (1 / 2 ^ 60))"
    by (rule noRevolutions64_fixed(2) [OF _ dbl]) simp_all
  then show "val64 (noRevolutions64 (Finite (1 / 2 ^ 60))) = 1 / 2 ^ 60"
    by (simp only: val64.simps)
qed

lemma small_positive_plus_360:
  "is_finite (Finite (1 / 2 ^ 60) + Finite 360 * Finite 1)"
  "val64 (Finite (1 / 2 ^ 60) + Finite 360 * Finite 1) = 360"
proof -
  have "round_nearest (real_of_int 360) = real_of_int 360" by (rule round_nearest_of_int) simp
  then have r360: "round_nearest (360 * 1) = 360" by simp
  have b: "\<bar>360 :: real\<bar> < overflow_threshold" by (rule below_threshold) simp
  have p: "is_finite (Finite 360 * Finite 1)" "val64 (Finite 360 * Finite 1) = 360"
    using times_val [of "Finite 360" "Finite 1"] b
    by (simp_all only: val64.simps is_finite.simps r360)
  have rn: "round_nearest (1 / 2 ^ 60 + 360) = 360"
    by (subst round_nearest_eval [where e = 8]) (simp_all add: rne_def Let_def)
  show "is_finite (Finite (1 / 2 ^ 60) + Finite 360 * Finite 1)"
    using plus_val(1) [of "Finite (1 / 2 ^ 60)" "Finite 360 * Finite 1"] b
    by (simp only: val64.simps is_finite.simps p rn)
  show "val64 (Finite (1 / 2 ^ 60) + Finite 360 * Finite 1) = 360"
    using plus_val(2) [of "Finite (1 / 2 ^ 60)" "Finite 360 * Finite 1"] b
    by (simp only: val64.simps is_finite.simps p rn)
qed

text \<open>
  Claim C9, as stated: for every finite \<open>a\<close> and integer \<open>k\<close>,
  \<open>noRevolutions (a + 360 * k) == noRevolutions a\<close>. On doubles it does not hold for
  \<open>a = 2 ^ (- 60)\<close> and \<open>k = 1\<close>: the sum \<open>a + 360 * 1\<close> is rounded to 360, which
  normalizes to 0, and \<open>a\<close> normalizes to itself.
\<close>

theorem noRevolutions64_revolution_absorbed:
  "\<not> js_eq64 (noRevolutions64 (Finite (1 / 2 ^ 60) + Finite 360 * Finite 1))
        (noRevolutions64 (Finite (1 / 2 ^ 60)))
   \<and> val64 (Finite (1 / 2 ^ 60) + Finite 360 * Finite 1) = 360
   \<and> val64 (noRevolutions64 (Finite (1 / 2 ^ 60) + Finite 360 * Finite 1)) = 0
   \<and> val64 (noRevolutions64 (Finite (1 / 2 ^ 60))) = 1 / 2 ^ 60"
proof -
  let ?s = "Finite (1 / 2 ^ 60) + Finite 360 * Finite 1"
  have v: "val64 ?s = real_of_int 360" by (simp only: small_positive_plus_360 of_int_numeral)
  have n: "is_finite (noRevolutions64 ?s)" "val64 (noRevolutions64 ?s) = 0"
    using noRevolutions64_int [OF small_positive_plus_360(1) v] by simp_all
  have "js_eq64 (noRevolutions64 ?s) (noRevolutions64 (Finite (1 / 2 ^ 60)))
        \<longleftrightarrow> val64 (noRevolutions64 ?s) = val64 (noRevolutions64 (Finite (1 / 2 ^ 60)))"
    by (rule js_eq64_finite [OF n(1) small_positive(1)])
  then have "js_eq64 (noRevolutions64 ?s) (noRevolutions64 (Finite (1 / 2 ^ 60)))
        \<longleftrightarrow> (0::real) = 1 / 2 ^ 60"
    by (simp only: n(2) small_positive(2))
  then have "\<not> js_eq64 (noRevolutions64 ?s) (noRevolutions64 (Finite (1 / 2 ^ 60)))" by simp
  then show ?thesis
    using n(2) small_positive(2) small_positive_plus_360(2) by (intro conjI)
qed

text \<open>
  Claim C9, amended. For every double \<open>a\<close> and integer \<open>k\<close> such that \<open>a + 360 * k\<close> is a
  double too, that is the sum is not rounded, \<open>noRevolutions (a + 360 * k) ==
  noRevolutions a\<close>; both \<open>a\<close> and the sum are of magnitude at most \<open>2 ^ 52\<close> and not
  negative numbers above \<open>- 2 ^ (- 1000)\<close>.
\<close>

theorem noRevolutions64_exact_revolutions:
  assumes "is_finite a" "is_double (val64 a)" "\<bar>val64 a\<bar> \<le> 2 ^ 52"
    and "0 \<le> val64 a \<or> val64 a \<le> - (2 powi (- 1000))"
    and "is_double (val64 a + 360 * of_int k)"
    and "\<bar>val64 a + 360 * of_int k\<bar> \<le> 2 ^ 52"
    and "0 \<le> val64 a + 360 * of_int k \<or> val64 a + 360 * of_int k \<le> - (2 powi (- 1000))"
  shows "js_eq64 (noRevolutions64 (a + Finite 360 * Finite (of_int k))) (noRevolutions64 a)"
  using assms by (rule noRevolutions64_add_revolutions)

lemma is_double_half: "is_double (1 / 2)"
proof -
  have "round_nearest (2 powi (- 1)) = 2 powi (- 1)" by (rule round_nearest_p2) simp
  then have "round_nearest (1 / 2) = 1 / 2" by (simp add: power_int_minus inverse_eq_divide)
  then show ?thesis by (rule is_double_bounded) simp
qed

lemma is_double_1080_half: "is_double (2161 / 2)"
proof -
  have "round_nearest (2161 / 2) = 2161 / 2"
    by (subst round_nearest_eval [where e = 10]) (simp_all add: rne_def Let_def)
  then show ?thesis by (rule is_double_bounded) simp
qed

text \<open>The hypotheses hold at \<open>a = 0.5\<close> and \<open>k = 3\<close>, with the sum 1080.5.\<close>

theorem noRevolutions64_exact_revolutions_witness:
  "is_finite (Finite (1 / 2)) \<and> is_double (val64 (Finite (1 / 2)))
   \<and> is_double (val64 (Finite (1 / 2)) + 360 * of_int 3)
   \<and> js_eq64 (noRevolutions64 (Finite (1 / 2) + Finite 360 * Finite (of_int 3)))
        (noRevolutions64 (Finite (1 / 2)))"
proof -
  have h1: "is_finite (Finite (1 / 2))" by simp
  have h2: "is_double (val64 (Finite (1 / 2)))" by (simp add: is_double_half)
  have h3: "\<bar>val64 (Finite (1 / 2))\<bar> \<le> 2 ^ 52" by simp
  have h4: "0 \<le> val64 (Finite (1 / 2)) \<or> val64 (Finite (1 / 2)) \<le> - (2 powi (- 1000))"
    by simp
  have h5: "is_double (val64 (Finite (1 / 2)) + 360 * of_int 3)"
    by (simp add: is_double_1080_half)
  have h6: "\<bar>val64 (Finite (1 / 2)) + 360 * of_int 3\<bar> \<le> 2 ^ 52" by simp
  have h7: "0 \<le> val64 (Finite (1 / 2)) + 360 * of_int 3
            \<or> val64 (Finite (1 / 2)) + 360 * of_int 3 \<le> - (2 powi (- 1000))" by simp
  from noRevolutions64_exact_revolutions [OF h1 h2 h3 h4 h5 h6 h7] h1 h2 h5
  show ?thesis by (intro conjI)
qed

text \<open>
  Claim C10, as stated: for every finite \<open>a\<close>,
  \<open>noRevolutions (noRevolutions a) == noRevolutions a\<close>. On doubles it does not hold for
  \<open>a = - 2 ^ (- 60)\<close>: the first application returns 360 and the second one 0.
\<close>

theorem noRevolutions64_not_idempotent:
  "\<not> js_eq64 (noRevolutions64 (noRevolutions64 (Finite (- (1 / 2 ^ 60)))))
        (noRevolutions64 (Finite (- (1 / 2 ^ 60))))
   \<and> val64 (noRevolutions64 (Finite (- (1 / 2 ^ 60)))) = 360
   \<and> val64 (noRevolutions64 (noRevolutions64 (Finite (- (1 / 2 ^ 60))))) = 0"
proof -
  let ?n = "noRevolutions64 (Finite (- (1 / 2 ^ 60)))"
  have v: "val64 ?n = real_of_int 360" by (simp only: tiny_negative of_int_numeral)
  have n: "is_finite (noRevolutions64 ?n)" "val64 (noRevolutions64 ?n) = 0"
    using noRevolutions64_int [OF tiny_negative(1) v] by simp_all
  have "js_eq64 (noRevolutions64 ?n) ?n \<longleftrightarrow> val64 (noRevolutions64 ?n) = val64 ?n"
    by (rule js_eq64_finite [OF n(1) tiny_negative(1)])
  then have "js_eq64 (noRevolutions64 ?n) ?n \<longleftrightarrow> (0::real) = 360"
    by (simp only: n(2) tiny_negative(2))
  then have "\<not> js_eq64 (noRevolutions64 ?n) ?n" by simp
  then show ?thesis using tiny_negative(2) n(2) by (intro conjI)
qed

text \<open>
  Claim C10, amended. For every double \<open>a\<close> of magnitude at most \<open>2 ^ 52\<close> that is not a
  negative number above \<open>- 2 ^ (- 1000)\<close>: when \<open>noRevolutions a\<close> is below 360, then
  \<open>noRevolutions (noRevolutions a) == noRevolutions a\<close>; when it is 360, the second
  application returns 0; in both cases a third application changes nothing. A double
  from 0 up to, and without, 360 is returned unchanged.
\<close>

theorem noRevolutions64_idempotent_below_360:
  assumes "is_finite a" "is_double (val64 a)" "\<bar>val64 a\<bar> \<le> 2 ^ 52"
    and "0 \<le> val64 a \<or> val64 a \<le> - (2 powi (- 1000))"
  shows "(val64 (noRevolutions64 a) < 360
            \<longrightarrow> js_eq64 (noRevolutions64 (noRevolutions64 a)) (noRevolutions64 a))
   \<and> (val64 (noRevolutions64 a) = 360
            \<longrightarrow> js_eq64 (noRevolutions64 (noRevolutions64 a)) (Finite 0))
   \<and> js_eq64 (noRevolutions64 (noRevolutions64 (noRevolutions64 a)))
        (noRevolutions64 (noRevolutions64 a))
   \<and> (0 \<le> val64 a \<and> val64 a < 360 \<longrightarrow> js_eq64 (noRevolutions64 a) a)"
proof -
  let ?n = "noRevolutions64 a"
  have f1: "is_finite ?n" using assms by (rule noRevolutions64_rounded_formula)
  have t: "is_finite (noRevolutions64 ?n)"
    "val64 (noRevolutions64 ?n) = (if val64 ?n < 360 then val64 ?n else 0)"
    "0 \<le> val64 (noRevolutions64 ?n)"
    "val64 (noRevolutions64 ?n) < 360"
    "is_double (val64 (noRevolutions64 ?n))"
    using assms by (rule noRevolutions64_twice)+
  have 1: "val64 ?n < 360 \<longrightarrow> js_eq64 (noRevolutions64 ?n) ?n"
    using t(1,2) f1 by (simp add: js_eq64_finite)
  have 2: "val64 ?n = 360 \<longrightarrow> js_eq64 (noRevolutions64 ?n) (Finite 0)"
    using t(1,2) by (simp add: js_eq64_finite)
  have "is_finite (noRevolutions64 (noRevolutions64 ?n))"
    and "val64 (noRevolutions64 (noRevolutions64 ?n)) = val64 (noRevolutions64 ?n)"
    using t(1) t(5) t(3) t(4) by (rule noRevolutions64_fixed)+
  then have 3: "js_eq64 (noRevolutions64 (noRevolutions64 ?n)) (noRevolutions64 ?n)"
    using t(1) by (simp add: js_eq64_finite)
  have 4: "0 \<le> val64 a \<and> val64 a < 360 \<longrightarrow> js_eq64 ?n a"
  proof
    assume r: "0 \<le> val64 a \<and> val64 a < 360"
    then have "val64 ?n = val64 a"
      using noRevolutions64_fixed(2) [OF assms(1,2)] by simp
    then show "js_eq64 ?n a" using f1 assms(1) by (simp add: js_eq64_finite)
  qed
  from 1 2 3 4 show ?thesis by (intro conjI)
qed

lemma is_double_725: "is_double 725"
  using is_double_of_int [of 725] by simp

text \<open>The hypotheses hold at 725, which normalizes to 5.\<close>

theorem noRevolutions64_idempotent_below_360_witness:
  "is_finite (Finite 725) \<and> is_double (val64 (Finite 725))
   \<and> val64 (noRevolutions64 (Finite 725)) = 5
   \<and> js_eq64 (noRevolutions64 (noRevolutions64 (Finite 725))) (noRevolutions64 (Finite 725))"
proof -
  have h1: "is_finite (Finite 725)" by simp
  have h2: "is_double (val64 (Finite 725))" by (simp add: is_double_725)
  have h3: "\<bar>val64 (Finite 725)\<bar> \<le> 2 ^ 52" by simp
  have h4: "0 \<le> val64 (Finite 725) \<or> val64 (Finite 725) \<le> - (2 powi (- 1000))" by simp
  have v: "val64 (noRevolutions64 (Finite 725)) = 5"
    using noRevolutions64_int(2) [of "Finite 725" 725] by simp
  from noRevolutions64_idempotent_below_360 [OF h1 h2 h3 h4]
  have "val64 (noRevolutions64 (Finite 725)) < 360
        \<longrightarrow> js_eq64 (noRevolutions64 (noRevolutions64 (Finite 725))) (noRevolutions64 (Finite 725))"
    by (rule conjunct1)
  with v have "js_eq64 (noRevolutions64 (noRevolutions64 (Finite 725))) (noRevolutions64 (Finite 725))"
    by simp
  with h1 h2 v show ?thesis by (intro conjI)
qed

section \<open>The claims on conversion\<close>

text \<open>
  Claim C6, as stated: for every finite \<open>a\<close>, \<open>toRadians a\<close> lies in the half-open
  interval from 0 to \<open>2 * \<pi>\<close>. On doubles it does not. For the double \<open>- 13 * 2 ^ 56\<close>
  the normalized angle is \<open>- 128\<close> and the result is negative. For \<open>- 2 ^ (- 60)\<close> the
  normalized angle is 360 and the result is \<^verbatim>\<open>2 * Math.PI\<close>, the value of a full turn.
\<close>

theorem toRadians64_outside_range:
  "\<not> (0 \<le> val64 (toRadians64 (Finite (- 936748722493063168)))
       \<and> val64 (toRadians64 (Finite (- 936748722493063168))) < 2 * pi)
   \<and> val64 (toRadians64 (Finite (- 936748722493063168))) = - (5030569068109113 / 2 ^ 51)
   \<and> val64 (toRadians64 (Finite (- (1 / 2 ^ 60)))) = 2 * val64 Math_PI64
   \<and> js_eq64 (toRadians64 (Finite (- (1 / 2 ^ 60)))) (Finite 2 * Math_PI64)"
proof -
  have 1: "val64 (toRadians64 (Finite (- 936748722493063168))) = - (5030569068109113 / 2 ^ 51)"
    by (rule toRadians64_large_negative)
  have 2: "\<not> (0 \<le> val64 (toRadians64 (Finite (- 936748722493063168)))
       \<and> val64 (toRadians64 (Finite (- 936748722493063168))) < 2 * pi)"
    by (simp only: 1) simp
  have 3: "val64 (toRadians64 (Finite (- (1 / 2 ^ 60)))) = 2 * val64 Math_PI64"
    by (simp only: toRadians64_tiny_negative Math_PI64_val)
  have "js_eq64 (toRadians64 (Finite (- (1 / 2 ^ 60)))) (Finite 2 * Math_PI64)
        \<longleftrightarrow> val64 (toRadians64 (Finite (- (1 / 2 ^ 60)))) = val64 (Finite 2 * Math_PI64)"
    by (rule js_eq64_finite [OF toRadians64_tiny_negative(1) two_pi(1)])
  then have 4: "js_eq64 (toRadians64 (Finite (- (1 / 2 ^ 60)))) (Finite 2 * Math_PI64)"
    by (simp only: toRadians64_tiny_negative two_pi)
  from 2 1 3 4 show ?thesis by (intro conjI)
qed

text \<open>
  Claim C6, amended. For every double \<open>a\<close> of magnitude at most \<open>2 ^ 52\<close> that is not a
  negative number above \<open>- 2 ^ (- 1000)\<close>, \<open>toRadians a\<close> is
  \<^verbatim>\<open>noRevolutions(a) * Math.PI / 180\<close>, the normalization applied before the conversion,
  the product and the quotient each rounded to the nearest double, and the result lies
  in the closed interval from 0 to \<^verbatim>\<open>2 * Math.PI\<close>. \<open>toRadians 360 == 0\<close> and
  \<open>toRadians 180 == Math.PI\<close>.
\<close>

theorem toRadians64_closed_range:
  assumes "is_finite a" "is_double (val64 a)" "\<bar>val64 a\<bar> \<le> 2 ^ 52"
    and "0 \<le> val64 a \<or> val64 a \<le> - (2 powi (- 1000))"
  shows "toRadians64 a = noRevolutions64 a * Math_PI64 / Finite 180
   \<and> is_finite (toRadians64 a)
   \<and> val64 (toRadians64 a) =
        round_nearest (round_nearest (val64 (noRevolutions64 a) * val64 Math_PI64) / 180)
   \<and> 0 \<le> val64 (toRadians64 a)
   \<and> val64 (toRadians64 a) \<le> 2 * val64 Math_PI64
   \<and> js_eq64 (toRadians64 (Finite 360)) (Finite 0)
   \<and> js_eq64 (toRadians64 (Finite 180)) Math_PI64"
proof -
  have d: "toRadians64 a = noRevolutions64 a * Math_PI64 / Finite 180"
    by (rule toRadians64_def)
  have f: "is_finite (noRevolutions64 a)"
    using assms by (rule noRevolutions64_rounded_formula)
  have r: "0 \<le> val64 (noRevolutions64 a)" "val64 (noRevolutions64 a) \<le> 360"
    using assms by (rule noRevolutions64_result)+
  note t = toRadians64_range [OF f r]
  have j1: "js_eq64 (toRadians64 (Finite 360)) (Finite 0)"
    using toRadians64_360 by (simp add: js_eq64_finite)
  have "js_eq64 (toRadians64 (Finite 180)) Math_PI64
        \<longleftrightarrow> val64 (toRadians64 (Finite 180)) = val64 Math_PI64"
    by (rule js_eq64_finite [OF toRadians64_180(1) Math_PI64_val(1)])
  then have j2: "js_eq64 (toRadians64 (Finite 180)) Math_PI64"
    by (simp only: toRadians64_180 Math_PI64_val)
  from d t j1 j2 show ?thesis by (intro conjI)
qed

lemma is_double_540: "is_double 540"
  using is_double_of_int [of 540] by simp

text \<open>The hypotheses hold at 540.\<close>

theorem toRadians64_closed_range_witness:
  "is_finite (Finite 540) \<and> is_double (val64 (Finite 540))
   \<and> is_finite (toRadians64 (Finite 540))
   \<and> 0 \<le> val64 (toRadians64 (Finite 540))
   \<and> val64 (toRadians64 (Finite 540)) \<le> 2 * val64 Math_PI64"
proof -
  have h1: "is_finite (Finite 540)" by simp
  have h2: "is_double (val64 (Finite 540))" by (simp add: is_double_540)
  have h3: "\<bar>val64 (Finite 540)\<bar> \<le> 2 ^ 52" by simp
  have h4: "0 \<le> val64 (Finite 540) \<or> val64 (Finite 540) \<le> - (2 powi (- 1000))" by simp
  from toRadians64_closed_range [OF h1 h2 h3 h4]
  have "is_finite (toRadians64 (Finite 540))"
    and "0 \<le> val64 (toRadians64 (Finite 540))"
    and "val64 (toRadians64 (Finite 540)) \<le> 2 * val64 Math_PI64"
    by blast+
  with h1 h2 show ?thesis by (intro conjI)
qed

text \<open>
  Claim C7, as stated: for every \<open>r\<close>, \<open>toDegrees r\<close> equals \<open>r * 180 / \<pi>\<close>. On doubles
  it does not for \<open>r = 2 ^ 1017\<close>: the product \<^verbatim>\<open>r * 180\<close> overflows, and the result is
  the positive infinity, where \<open>r * 180 / \<pi>\<close> is a finite number.
\<close>

theorem toDegrees64_overflows:
  "toDegrees64 (Finite (2 ^ 1017)) = Infinite False
   \<and> \<not> is_finite (toDegrees64 (Finite (2 ^ 1017)))
   \<and> is_double (2 ^ 1017)"
  by (simp only: toDegrees64_overflow is_double_2_1017 is_finite.simps simp_thms)

text \<open>
  Claim C7, amended. For every finite double \<open>r\<close> of magnitude at most \<open>2 ^ 1000\<close>,
  \<open>toDegrees r\<close> is \<^verbatim>\<open>r * 180 / Math.PI\<close> with no normalization before or after: it is
  finite, the product and the quotient each rounded to the nearest double, and, for
  \<open>r\<close> of magnitude at least \<open>2 ^ (- 1000)\<close>, within the relative error \<open>2 ^ (- 51)\<close> of
  the exact quotient \<open>r * 180 / Math.PI\<close>. \<open>toDegrees (2 * Math.PI) == 360\<close>, not 0, and
  \<open>toDegrees (- Math.PI) == - 180\<close>.
\<close>

theorem toDegrees64_unnormalized:
  assumes "is_finite r" "\<bar>val64 r\<bar> \<le> 2 powi 1000"
  shows "toDegrees64 r = r * Finite 180 / Math_PI64
   \<and> is_finite (toDegrees64 r)
   \<and> val64 (toDegrees64 r) = round_nearest (round_nearest (val64 r * 180) / val64 Math_PI64)
   \<and> (2 powi (- 1000) \<le> \<bar>val64 r\<bar>
        \<longrightarrow> \<bar>val64 (toDegrees64 r) - val64 r * 180 / val64 Math_PI64\<bar>
             \<le> \<bar>val64 r * 180 / val64 Math_PI64\<bar> / 2 ^ 51)
   \<and> js_eq64 (toDegrees64 (Finite 2 * Math_PI64)) (Finite 360)
   \<and> \<not> js_eq64 (toDegrees64 (Finite 2 * Math_PI64)) (Finite 0)
   \<and> js_eq64 (toDegrees64 (- Math_PI64)) (Finite (- 180))"
proof -
  have d: "toDegrees64 r = r * Finite 180 / Math_PI64"
    by (rule toDegrees64_def)
  note f = toDegrees64_finite [OF assms]
  have e: "2 powi (- 1000) \<le> \<bar>val64 r\<bar>
        \<longrightarrow> \<bar>val64 (toDegrees64 r) - val64 r * 180 / val64 Math_PI64\<bar>
             \<le> \<bar>val64 r * 180 / val64 Math_PI64\<bar> / 2 ^ 51"
    using toDegrees64_error [OF assms(1) _ assms(2)] by blast
  have j1: "js_eq64 (toDegrees64 (Finite 2 * Math_PI64)) (Finite 360)"
    using toDegrees64_two_pi by (simp add: js_eq64_finite)
  have j2: "\<not> js_eq64 (toDegrees64 (Finite 2 * Math_PI64)) (Finite 0)"
    using toDegrees64_two_pi by (simp add: js_eq64_finite)
  have j3: "js_eq64 (toDegrees64 (- Math_PI64)) (Finite (- 180))"
    using toDegrees64_minus_pi by (simp add: js_eq64_finite)
  from d f e j1 j2 j3 show ?thesis by (intro conjI)
qed

text \<open>The hypotheses hold at \<^verbatim>\<open>Math.PI\<close>.\<close>

theorem toDegrees64_unnormalized_witness:
  "is_finite Math_PI64 \<and> \<bar>val64 Math_PI64\<bar> \<le> 2 powi 1000
   \<and> 2 powi (- 1000) \<le> \<bar>val64 Math_PI64\<bar>
   \<and> is_finite (toDegrees64 Math_PI64)
   \<and> \<bar>val64 (toDegrees64 Math_PI64) - val64 Math_PI64 * 180 / val64 Math_PI64\<bar>
       \<le> \<bar>val64 Math_PI64 * 180 / val64 Math_PI64\<bar> / 2 ^ 51"
proof -
  have h1: "is_finite Math_PI64" by (rule Math_PI64_val)
  have b: "\<bar>val64 Math_PI64\<bar> \<le> 4" "1 \<le> \<bar>val64 Math_PI64\<bar>"
    using Math_PI64_bounds by simp_all
  have "(2::real) powi 2 \<le> 2 powi 1000" by (simp only: p2_le_iff)
  then have "4 \<le> (2::real) powi 1000" by simp
  with b(1) have h2: "\<bar>val64 Math_PI64\<bar> \<le> 2 powi 1000" by linarith
  have "(2::real) powi (- 1000) \<le> 2 powi 0" by (simp only: p2_le_iff)
  then have "(2::real) powi (- 1000) \<le> 1" by simp
  with b(2) have h3: "2 powi (- 1000) \<le> \<bar>val64 Math_PI64\<bar>" by linarith
  from toDegrees64_unnormalized [OF h1 h2]
  have "is_finite (toDegrees64 Math_PI64)"
    and "2 powi (- 1000) \<le> \<bar>val64 Math_PI64\<bar>
        \<longrightarrow> \<bar>val64 (toDegrees64 Math_PI64) - val64 Math_PI64 * 180 / val64 Math_PI64\<bar>
             \<le> \<bar>val64 Math_PI64 * 180 / val64 Math_PI64\<bar> / 2 ^ 51"
    by blast+
  with h1 h2 h3 show ?thesis by blast
qed

section \<open>The claim on equality\<close>




end
